theory Spec2Isabelle
  imports Main
begin

section \<open>Strings\<close>

text \<open>
  Source strings are modelled as \<^typ>\<open>string\<close>, one \<^typ>\<open>char\<close> per code unit (the
  8-bit range). The helpers below are the string methods the modelled code calls.
\<close>

text \<open>\<^verbatim>\<open>s.split(c)\<close> for a one-character separator: never returns the empty array.\<close>

fun split_on :: "char \<Rightarrow> string \<Rightarrow> string list" where
  "split_on c [] = [[]]"
| "split_on c (x # xs) =
     (if x = c then [] # split_on c xs
      else (case split_on c xs of [] \<Rightarrow> [[x]] | w # ws \<Rightarrow> (x # w) # ws))"

text \<open>\<^verbatim>\<open>parts.join(sep)\<close>.\<close>

fun join :: "string \<Rightarrow> string list \<Rightarrow> string" where
  "join sep [] = []"
| "join sep [x] = x"
| "join sep (x # y # ys) = x @ sep @ join sep (y # ys)"

text \<open>\<^verbatim>\<open>xs.filter(Boolean)\<close> on an array of strings drops the empty strings.\<close>

definition filter_Boolean :: "string list \<Rightarrow> string list" where
  "filter_Boolean xs = filter (\<lambda>s. s \<noteq> []) xs"

text \<open>\<^verbatim>\<open>s.startsWith(p)\<close>.\<close>

definition startsWith :: "string \<Rightarrow> string \<Rightarrow> bool" where
  "startsWith s p = (take (length p) s = p)"

section \<open>The virtual filesystem\<close>

datatype FSNodeType = File | Directory | Symlink

text \<open>
  An \<^verbatim>\<open>FSNode\<close>. Optional fields are \<^typ>\<open>'a option\<close>. \<^verbatim>\<open>children\<close> is a
  \<^verbatim>\<open>Map<string, FSNode>\<close>; its entries under string keys are modelled as a partial function
  on names. At run time the \<^verbatim>\<open>Map\<close> can hold one more entry, under the key \<^verbatim>\<open>undefined\<close>:
  \<^verbatim>\<open>writeFile\<close> stores it for the path \<^verbatim>\<open>/\<close>, where \<^verbatim>\<open>parts.pop()\<close> is \<^verbatim>\<open>undefined\<close>. That
  entry is \<open>undefined_entry\<close>, and since the node stored there has the name \<^verbatim>\<open>undefined\<close>,
  \<open>name\<close> is optional as well.

  The iteration order of the \<^verbatim>\<open>Map\<close> is not represented, but for the one fact about it that
  a modelled operation reads: \<^verbatim>\<open>_nodeToJSON\<close> assigns the entries under \<^verbatim>\<open>undefined\<close> and under
  the string \<^verbatim>\<open>'undefined'\<close> to the same property, in iteration order, so the later one
  stays. The boolean stored with \<open>undefined_entry\<close> says that the key \<^verbatim>\<open>undefined\<close> comes
  after the key \<^verbatim>\<open>'undefined'\<close> in that order; it is read only when both keys are present.
\<close>

datatype FSNode = FSNode
  (name: "string option")
  (ntype: FSNodeType)
  (content: "string option")
  (children: "(string \<Rightarrow> FSNode option) option")
  (target: "string option")
  (permissions: "string option")
  (modified: "int option")
  (undefined_entry: "(FSNode \<times> bool) option")

datatype exn = TypeError

text \<open>The root the constructor of \<^verbatim>\<open>VirtualFileSystem\<close> builds.\<close>

definition empty_root :: FSNode where
  "empty_root =
     FSNode (Some ''/'') Directory None (Some Map.empty) None (Some ''drwxr-xr-x'') None None"

text \<open>A string-or-undefined field used as a condition: defined and not empty.\<close>

definition truthy :: "string option \<Rightarrow> bool" where
  "truthy s = (case s of None \<Rightarrow> False | Some t \<Rightarrow> t \<noteq> [])"

definition set_children :: "(string \<Rightarrow> FSNode option) \<Rightarrow> FSNode \<Rightarrow> FSNode" where
  "set_children m n =
     FSNode (name n) (ntype n) (content n) (Some m) (target n) (permissions n) (modified n)
       (undefined_entry n)"

text \<open>\<^verbatim>\<open>_resolveParts\<close>: the loop over the input parts, then the function.\<close>

fun resolveParts_loop :: "string list \<Rightarrow> string list \<Rightarrow> string list" where
  "resolveParts_loop resolved [] = resolved"
| "resolveParts_loop resolved (part # rest) =
     (if part = ''.'' then resolveParts_loop resolved rest
      else if part = ''..'' then resolveParts_loop (butlast resolved) rest
      else resolveParts_loop (resolved @ [part]) rest)"

definition resolveParts :: "string \<Rightarrow> string \<Rightarrow> string list" where
  "resolveParts path cwd =
     (let isAbsolute = startsWith path ''/'';
          baseParts = (if isAbsolute then [] else filter_Boolean (split_on CHR ''/'' cwd));
          inputParts = filter_Boolean (split_on CHR ''/'' path)
      in resolveParts_loop baseParts inputParts)"

definition resolvePath :: "string \<Rightarrow> string \<Rightarrow> string" where
  "resolvePath path cwd = CHR ''/'' # join ''/'' (resolveParts path cwd)"

text \<open>
  \<^verbatim>\<open>_walk\<close> returns a reference to a node of the tree, and \<^verbatim>\<open>writeFile\<close>,
  \<^verbatim>\<open>appendFile\<close> and \<^verbatim>\<open>rm\<close> mutate the node they get back. Every node object sits at
  one place of the tree (no operation stores an existing node a second time), so a reference
  is modelled as the position of the node, the list of child names from the root, paired
  with the node found there.
\<close>

type_synonym noderef = "string list \<times> FSNode"

text \<open>
  The loop of \<^verbatim>\<open>_walk\<close>: \<open>pre\<close> is \<^verbatim>\<open>parts.slice(0, i)\<close>, the second list is what is left
  of \<^verbatim>\<open>parts\<close> from index \<^verbatim>\<open>i\<close>. The recursive call of \<^verbatim>\<open>_walk\<close> for a symlink target
  is written out with its depth check.
\<close>

function walk_loop ::
  "FSNode \<Rightarrow> string list \<Rightarrow> string list \<Rightarrow> noderef \<Rightarrow> bool \<Rightarrow> nat \<Rightarrow> noderef option" where
  "walk_loop root pre [] current followSymlinks depth = Some current"
| "walk_loop root pre (part # rest) current followSymlinks depth =
     (if ntype (snd current) \<noteq> Directory then None
      else case children (snd current) of
        None \<Rightarrow> None
      | Some m \<Rightarrow>
         (case m part of
            None \<Rightarrow> None
          | Some child \<Rightarrow>
             if ntype child = Symlink \<and> followSymlinks \<and> truthy (target child) then
               (case (if depth + 1 > 20 then None
                      else walk_loop root []
                             (resolveParts (case target child of Some t \<Rightarrow> t | None \<Rightarrow> [])
                                (CHR ''/'' # join ''/'' pre))
                             ([], root) True (depth + 1)) of
                  None \<Rightarrow> None
                | Some targetNode \<Rightarrow>
                    walk_loop root (pre @ [part]) rest targetNode followSymlinks depth)
             else walk_loop root (pre @ [part]) rest (fst current @ [part], child)
                    followSymlinks depth))"
  by pat_completeness auto
termination
  by (relation "measures [\<lambda>(root, pre, rest, current, follow, depth). 21 - depth,
                          \<lambda>(root, pre, rest, current, follow, depth). length rest]") auto

definition walk :: "FSNode \<Rightarrow> string list \<Rightarrow> bool \<Rightarrow> nat \<Rightarrow> noderef option" where
  "walk root parts followSymlinks depth =
     (if depth > 20 then None else walk_loop root [] parts ([], root) followSymlinks depth)"

definition resolve :: "FSNode \<Rightarrow> string \<Rightarrow> string \<Rightarrow> noderef option" where
  "resolve root path cwd = walk root (resolveParts path cwd) True 0"

section \<open>Filesystem operations\<close>

text \<open>
  In-place mutation of the node a reference points to: \<open>update_at loc f root\<close> is the tree
  after the node at position \<open>loc\<close> has been changed by \<open>f\<close>.
\<close>

fun update_at :: "string list \<Rightarrow> (FSNode \<Rightarrow> FSNode) \<Rightarrow> FSNode \<Rightarrow> FSNode" where
  "update_at [] f n = f n"
| "update_at (k # ks) f n =
     (case children n of
        None \<Rightarrow> n
      | Some m \<Rightarrow> (case m k of
                    None \<Rightarrow> n
                  | Some c \<Rightarrow> set_children (m(k \<mapsto> update_at ks f c)) n))"

text \<open>
  \<^verbatim>\<open>node.children.get(k)\<close>, \<^verbatim>\<open>node.children.set(k, v)\<close> and \<^verbatim>\<open>node.children.delete(k)\<close>
  on a node that has a \<^verbatim>\<open>children\<close> map. The key of \<^verbatim>\<open>get\<close> and \<^verbatim>\<open>set\<close> is the result of
  \<^verbatim>\<open>parts.pop()\<close>, a string or \<^verbatim>\<open>undefined\<close> (\<open>None\<close>). \<^verbatim>\<open>set\<close> puts a key that is new
  at the end of the iteration order and leaves a key that is present where it is.
\<close>

definition children_get :: "string option \<Rightarrow> FSNode \<Rightarrow> FSNode option" where
  "children_get k n =
     (case k of
        None \<Rightarrow> map_option fst (undefined_entry n)
      | Some s \<Rightarrow> (case children n of None \<Rightarrow> None | Some m \<Rightarrow> m s))"

definition set_undefined_entry :: "(FSNode \<times> bool) option \<Rightarrow> FSNode \<Rightarrow> FSNode" where
  "set_undefined_entry u n =
     FSNode (name n) (ntype n) (content n) (children n) (target n) (permissions n) (modified n) u"

definition children_set :: "string option \<Rightarrow> FSNode \<Rightarrow> FSNode \<Rightarrow> FSNode" where
  "children_set k v n =
     (case children n of
        None \<Rightarrow> n
      | Some m \<Rightarrow>
          (case k of
             Some s \<Rightarrow>
               set_children (m(s \<mapsto> v))
                 (if s = ''undefined'' \<and> m s = None
                  then set_undefined_entry (map_option (\<lambda>(u, after). (u, False)) (undefined_entry n)) n
                  else n)
           | None \<Rightarrow>
               set_undefined_entry
                 (Some (v, (case undefined_entry n of None \<Rightarrow> True | Some (u, after) \<Rightarrow> after))) n))"

definition children_delete :: "string \<Rightarrow> FSNode \<Rightarrow> FSNode" where
  "children_delete k n = (case children n of None \<Rightarrow> n | Some m \<Rightarrow> set_children (m(k := None)) n)"

definition readFile :: "FSNode \<Rightarrow> string \<Rightarrow> string \<Rightarrow> string option" where
  "readFile root path cwd =
     (case resolve root path cwd of
        None \<Rightarrow> None
      | Some (loc, node) \<Rightarrow>
          if ntype node \<noteq> File then None
          else Some (case content node of Some c \<Rightarrow> c | None \<Rightarrow> []))"

text \<open>
  \<^verbatim>\<open>writeFile\<close>. \<open>now\<close> is the reading of \<^verbatim>\<open>Date.now()\<close>. \<^verbatim>\<open>parent.children!.get\<close> throws
  a \<^verbatim>\<open>TypeError\<close> when the parent is a directory node without a \<^verbatim>\<open>children\<close> map (such a
  node can come out of \<^verbatim>\<open>fromJSON\<close>). For the path \<^verbatim>\<open>/\<close> the list of parts is empty and
  \<^verbatim>\<open>parts.pop()\<close> is \<^verbatim>\<open>undefined\<close>: the new node, named \<^verbatim>\<open>undefined\<close>, is stored in the
  root under the key \<^verbatim>\<open>undefined\<close>.
\<close>

definition new_file :: "string option \<Rightarrow> string \<Rightarrow> int \<Rightarrow> FSNode" where
  "new_file fileName text now =
     FSNode fileName File (Some text) None None (Some ''-rw-r--r--'') (Some now) None"

definition writeFile ::
  "FSNode \<Rightarrow> string \<Rightarrow> string \<Rightarrow> string \<Rightarrow> int \<Rightarrow> exn + (bool \<times> FSNode)" where
  "writeFile root path text cwd now =
     (let absPath = resolvePath path cwd;
          parts = filter_Boolean (split_on CHR ''/'' absPath);
          fileName = (if parts = [] then None else Some (last parts));
          parentPath = CHR ''/'' # join ''/'' (butlast parts)
      in case resolve root parentPath ''/'' of
           None \<Rightarrow> Inr (False, root)
         | Some (loc, parent) \<Rightarrow>
             if ntype parent \<noteq> Directory then Inr (False, root)
             else (case children parent of
                     None \<Rightarrow> Inl TypeError
                   | Some m \<Rightarrow>
                       if (case children_get fileName parent of
                             Some existing \<Rightarrow> ntype existing = Directory
                           | None \<Rightarrow> False)
                       then Inr (False, root)
                       else Inr (True,
                              update_at loc
                                (children_set fileName (new_file fileName text now))
                                root)))"

definition append_content :: "string \<Rightarrow> int \<Rightarrow> FSNode \<Rightarrow> FSNode" where
  "append_content text now n =
     FSNode (name n) (ntype n)
       (Some ((case content n of Some c \<Rightarrow> c | None \<Rightarrow> []) @ text))
       (children n) (target n) (permissions n) (Some now) (undefined_entry n)"

definition appendFile ::
  "FSNode \<Rightarrow> string \<Rightarrow> string \<Rightarrow> string \<Rightarrow> int \<Rightarrow> exn + (bool \<times> FSNode)" where
  "appendFile root path text cwd now =
     (case resolve root path cwd of
        None \<Rightarrow> writeFile root path text cwd now
      | Some (loc, node) \<Rightarrow>
          if ntype node = File then Inr (True, update_at loc (append_content text now) root)
          else writeFile root path text cwd now)"

definition rm :: "FSNode \<Rightarrow> string \<Rightarrow> string \<Rightarrow> bool \<Rightarrow> exn + (bool \<times> FSNode)" where
  "rm root path cwd recursive =
     (let absPath = resolvePath path cwd;
          parts = filter_Boolean (split_on CHR ''/'' absPath)
      in if parts = [] then Inr (False, root)
         else
           (let fileName = last parts;
                parentPath = CHR ''/'' # join ''/'' (butlast parts)
            in case resolve root parentPath ''/'' of
                 None \<Rightarrow> Inr (False, root)
               | Some (loc, parent) \<Rightarrow>
                   if ntype parent \<noteq> Directory then Inr (False, root)
                   else (case children parent of
                           None \<Rightarrow> Inl TypeError
                         | Some m \<Rightarrow>
                            (case m fileName of
                               None \<Rightarrow> Inr (False, root)
                             | Some tgt \<Rightarrow>
                                 if ntype tgt = Directory \<and> \<not> recursive then Inr (False, root)
                                 else Inr (True, update_at loc (children_delete fileName) root)))))"

definition exists_path :: "FSNode \<Rightarrow> string \<Rightarrow> string \<Rightarrow> bool" where
  "exists_path root path cwd = (resolve root path cwd \<noteq> None)"

definition isDirectory :: "FSNode \<Rightarrow> string \<Rightarrow> string \<Rightarrow> bool" where
  "isDirectory root path cwd =
     (case resolve root path cwd of None \<Rightarrow> False | Some (loc, node) \<Rightarrow> ntype node = Directory)"

definition isFile :: "FSNode \<Rightarrow> string \<Rightarrow> string \<Rightarrow> bool" where
  "isFile root path cwd =
     (case resolve root path cwd of None \<Rightarrow> False | Some (loc, node) \<Rightarrow> ntype node = File)"

subsection \<open>Snapshots\<close>

datatype FSNodeJSON = FSNodeJSON
  (jname: "string option")
  (jtype: FSNodeType)
  (jcontent: "string option")
  (jchildren: "(string \<Rightarrow> FSNodeJSON option) option")
  (jtarget: "string option")
  (jpermissions: "string option")

text \<open>
  The properties of the object \<^verbatim>\<open>json.children = {}\<close> after the loop of \<^verbatim>\<open>_nodeToJSON\<close> has
  assigned every converted entry with \<^verbatim>\<open>json.children[name] = ...\<close>: \<open>props\<close> are the converted
  entries under string keys and \<open>u\<close> is the converted entry under the key \<^verbatim>\<open>undefined\<close>, with
  its place in the order. The key \<^verbatim>\<open>undefined\<close> is the property \<^verbatim>\<open>'undefined'\<close>; of two
  assignments to it the later one stays. The assignment creates a property for every name
  but one: for \<^verbatim>\<open>__proto__\<close> it runs the setter of \<^verbatim>\<open>Object.prototype\<close> and creates no
  property, so \<^verbatim>\<open>Object.entries\<close> in \<^verbatim>\<open>_jsonToNode\<close> does not see that child.
\<close>

definition assigned_properties ::
  "(string \<Rightarrow> 'a option) \<Rightarrow> ('a \<times> bool) option \<Rightarrow> string \<Rightarrow> 'a option" where
  "assigned_properties props u =
     (case u of
        None \<Rightarrow> props
      | Some (x, after) \<Rightarrow>
          if props ''undefined'' = None \<or> after then props(''undefined'' \<mapsto> x) else props)
     (''__proto__'' := None)"

text \<open>
  \<^verbatim>\<open>_nodeToJSON\<close>: \<^verbatim>\<open>content\<close> is copied when it is not \<^verbatim>\<open>undefined\<close>, \<^verbatim>\<open>target\<close> and
  \<^verbatim>\<open>permissions\<close> when they are truthy, and \<^verbatim>\<open>children\<close>, when the node has them, entry by
  entry. \<^verbatim>\<open>_jsonToNode\<close> builds every \<^verbatim>\<open>Map\<close> from the properties of an object, so none of
  its keys is \<^verbatim>\<open>undefined\<close>.
\<close>

primrec nodeToJSON :: "FSNode \<Rightarrow> FSNodeJSON" where
  "nodeToJSON (FSNode n t c ch tg p md ue) =
     FSNodeJSON n t c
       (map_option
          (\<lambda>props. assigned_properties props (map_option (map_prod nodeToJSON id) ue))
          (map_option (\<lambda>m. map_option nodeToJSON \<circ> m) ch))
       (if truthy tg then tg else None)
       (if truthy p then p else None)"

primrec jsonToNode :: "int \<Rightarrow> FSNodeJSON \<Rightarrow> FSNode" where
  "jsonToNode now (FSNodeJSON n t c ch tg p) =
     FSNode n t c (map_option (\<lambda>m. map_option (jsonToNode now) \<circ> m) ch) tg p (Some now) None"

definition toJSON :: "FSNode \<Rightarrow> FSNodeJSON" where
  "toJSON root = nodeToJSON root"

definition fromJSON :: "int \<Rightarrow> FSNodeJSON \<Rightarrow> FSNode" where
  "fromJSON now json = jsonToNode now json"

text \<open>
  Resolution without the cap, as a relation: \<open>nested_hops root pre rest current k result\<close>
  holds when walking \<open>rest\<close> from \<open>current\<close>, following every symlink that has a target,
  reaches \<open>result\<close>, and \<open>k\<close> is the depth to which the resolutions of symlink targets are
  nested in that walk. A symlink met while the target of another symlink is resolved lies
  one level deeper; symlinks met one after the other along the same path lie on the same
  level. A cycle of symlinks has no finite nesting, so nothing is related to it.
\<close>

inductive nested_hops :: "FSNode \<Rightarrow> string list \<Rightarrow> string list \<Rightarrow> noderef \<Rightarrow> nat \<Rightarrow> noderef \<Rightarrow> bool" where
  nested_done: "nested_hops root pre [] current 0 current"
| nested_child:
    "ntype (snd current) = Directory \<Longrightarrow> children (snd current) = Some m \<Longrightarrow>
     m part = Some child \<Longrightarrow> \<not> (ntype child = Symlink \<and> truthy (target child)) \<Longrightarrow>
     nested_hops root (pre @ [part]) rest (fst current @ [part], child) k result \<Longrightarrow>
     nested_hops root pre (part # rest) current k result"
| nested_link:
    "ntype (snd current) = Directory \<Longrightarrow> children (snd current) = Some m \<Longrightarrow>
     m part = Some child \<Longrightarrow> ntype child = Symlink \<Longrightarrow> target child = Some t \<Longrightarrow> t \<noteq> [] \<Longrightarrow>
     nested_hops root [] (resolveParts t (CHR ''/'' # join ''/'' pre)) ([], root) j targetNode \<Longrightarrow>
     nested_hops root (pre @ [part]) rest targetNode k result \<Longrightarrow>
     nested_hops root pre (part # rest) current (max (Suc j) k) result"

text \<open>
  The walk of \<^verbatim>\<open>_walk\<close> once more, now with a record of the symlinks it follows:
  \<open>followed_loop\<close> returns, with the node reached, the positions of the symlinks followed,
  in the order in which the walk meets them, those met while a target is resolved included.
  The length of that list is the number of symlink hops of the resolution.
\<close>

function followed_loop ::
  "FSNode \<Rightarrow> string list \<Rightarrow> string list \<Rightarrow> noderef \<Rightarrow> bool \<Rightarrow> nat
   \<Rightarrow> (string list list \<times> noderef) option" where
  "followed_loop root pre [] current followSymlinks depth = Some ([], current)"
| "followed_loop root pre (part # rest) current followSymlinks depth =
     (if ntype (snd current) \<noteq> Directory then None
      else case children (snd current) of
        None \<Rightarrow> None
      | Some m \<Rightarrow>
         (case m part of
            None \<Rightarrow> None
          | Some child \<Rightarrow>
             if ntype child = Symlink \<and> followSymlinks \<and> truthy (target child) then
               (case (if depth + 1 > 20 then None
                      else followed_loop root []
                             (resolveParts (case target child of Some t \<Rightarrow> t | None \<Rightarrow> [])
                                (CHR ''/'' # join ''/'' pre))
                             ([], root) True (depth + 1)) of
                  None \<Rightarrow> None
                | Some (links1, targetNode) \<Rightarrow>
                    (case followed_loop root (pre @ [part]) rest targetNode followSymlinks depth of
                       None \<Rightarrow> None
                     | Some (links2, result) \<Rightarrow>
                         Some ((fst current @ [part]) # links1 @ links2, result)))
             else followed_loop root (pre @ [part]) rest (fst current @ [part], child)
                    followSymlinks depth))"
  by pat_completeness auto
termination
  by (relation "measures [\<lambda>(root, pre, rest, current, follow, depth). 21 - depth,
                          \<lambda>(root, pre, rest, current, follow, depth). length rest]") auto

text \<open>The symlinks followed when a path is resolved, and how many they are.\<close>

definition symlinks_followed :: "FSNode \<Rightarrow> string \<Rightarrow> string \<Rightarrow> string list list option" where
  "symlinks_followed root path cwd =
     map_option fst (followed_loop root [] (resolveParts path cwd) ([], root) True 0)"

definition symlink_hops :: "FSNode \<Rightarrow> string \<Rightarrow> string \<Rightarrow> nat option" where
  "symlink_hops root path cwd = map_option length (symlinks_followed root path cwd)"

text \<open>Small trees used as concrete inputs.\<close>

definition file_a :: FSNode where
  "file_a = FSNode (Some ''a'') File (Some ''hi'') None None (Some ''-rw-r--r--'') None None"

definition loop_link :: FSNode where
  "loop_link = FSNode (Some ''loop'') Symlink None None (Some ''/loop'') None None None"

definition small_root :: FSNode where
  "small_root = FSNode (Some ''/'') Directory None
     (Some [''a'' \<mapsto> file_a, ''loop'' \<mapsto> loop_link]) None (Some ''drwxr-xr-x'') None None"

text \<open>
  Two helpers to state what a snapshot round trip keeps: \<open>set_modified now T\<close> is \<open>T\<close> with
  every \<^verbatim>\<open>modified\<close> stamp set to \<open>now\<close> and every other field as it is;
  \<open>snapshot_safe T\<close> says that no node of \<open>T\<close> has the empty string as its \<^verbatim>\<open>target\<close> or
  \<^verbatim>\<open>permissions\<close> and that no directory of \<open>T\<close> has an entry named \<^verbatim>\<open>__proto__\<close> or an
  entry under the key \<^verbatim>\<open>undefined\<close>.
\<close>

primrec set_modified :: "int \<Rightarrow> FSNode \<Rightarrow> FSNode" where
  "set_modified now (FSNode n t c ch tg p md ue) =
     FSNode n t c (map_option (\<lambda>m. map_option (set_modified now) \<circ> m) ch) tg p (Some now)
       (map_option (map_prod (set_modified now) id) ue)"

primrec snapshot_safe :: "FSNode \<Rightarrow> bool" where
  "snapshot_safe (FSNode n t c ch tg p md ue) =
     (tg \<noteq> Some [] \<and> p \<noteq> Some [] \<and> ue = None \<and>
      (case ch of None \<Rightarrow> True | Some m \<Rightarrow> m ''__proto__'' = None) \<and>
      (case map_option (\<lambda>m. map_option snapshot_safe \<circ> m) ch of
         None \<Rightarrow> True
       | Some bm \<Rightarrow> \<forall>k. bm k \<noteq> Some False))"

definition root_with_proto :: FSNode where
  "root_with_proto = FSNode (Some ''/'') Directory None
     (Some [''__proto__'' \<mapsto> FSNode (Some ''__proto__'') File (Some ''data'') None None None None None])
     None None None None"

definition blank_permissions_file :: FSNode where
  "blank_permissions_file = FSNode (Some ''x'') File (Some ''data'') None None (Some []) None None"

section \<open>More string helpers\<close>

text \<open>The characters \<^verbatim>\<open>\s\<close> matches and \<^verbatim>\<open>trim()\<close> strips, within the 8-bit range.\<close>

definition is_space :: "char \<Rightarrow> bool" where
  "is_space c = (c \<in> set [CHR 0x09, CHR 0x0A, CHR 0x0B, CHR 0x0C, CHR 0x0D, CHR 0x20, CHR 0xA0])"

definition trim :: "string \<Rightarrow> string" where
  "trim s = rev (dropWhile is_space (rev (dropWhile is_space s)))"

text \<open>The characters \<^verbatim>\<open>\w\<close> matches.\<close>

definition is_word_char :: "char \<Rightarrow> bool" where
  "is_word_char c =
     (let n = (of_char c :: nat) in
      (97 \<le> n \<and> n \<le> 122) \<or> (65 \<le> n \<and> n \<le> 90) \<or> (48 \<le> n \<and> n \<le> 57) \<or> n = 95)"

text \<open>\<^verbatim>\<open>s.indexOf(c)\<close>, with \<open>None\<close> for \<^verbatim>\<open>-1\<close>.\<close>

fun indexOf :: "string \<Rightarrow> char \<Rightarrow> nat option" where
  "indexOf [] c = None"
| "indexOf (x # xs) c = (if x = c then Some 0 else map_option Suc (indexOf xs c))"

text \<open>\<^verbatim>\<open>s.slice(a, b)\<close> and \<^verbatim>\<open>s.slice(a)\<close> for indices that are not negative.\<close>

definition slice :: "'a list \<Rightarrow> nat \<Rightarrow> nat \<Rightarrow> 'a list" where
  "slice s a b = take (b - a) (drop a s)"

definition endsWith :: "string \<Rightarrow> string \<Rightarrow> bool" where
  "endsWith s p = (length p \<le> length s \<and> drop (length s - length p) s = p)"

text \<open>\<^verbatim>\<open>s.replace(/pat/g, rep)\<close> for a pattern that is a literal, non-empty string.\<close>

fun replace_all :: "string \<Rightarrow> string \<Rightarrow> string \<Rightarrow> string" where
  "replace_all pat rep [] = []"
| "replace_all pat rep (c # cs) =
     (if pat \<noteq> [] \<and> startsWith (c # cs) pat
      then rep @ replace_all pat rep (drop (length pat - 1) cs)
      else c # replace_all pat rep cs)"

text \<open>\<^verbatim>\<open>s.split(/\s+/)\<close>.\<close>

function split_ws :: "string \<Rightarrow> string list" where
  "split_ws [] = [[]]"
| "split_ws (c # cs) =
     (if is_space c then [] # split_ws (dropWhile is_space cs)
      else (case split_ws cs of [] \<Rightarrow> [[c]] | w # ws \<Rightarrow> (c # w) # ws))"
  by pat_completeness auto
termination
  by (relation "measure length") (auto simp: length_dropWhile_le less_Suc_eq_le)

text \<open>Decimal rendering of a number that is not negative, and of an integer.\<close>

definition digit_char :: "nat \<Rightarrow> char" where
  "digit_char d = char_of (48 + d)"

function show_nat :: "nat \<Rightarrow> string" where
  "show_nat n = (if n < 10 then [digit_char n] else show_nat (n div 10) @ [digit_char (n mod 10)])"
  by pat_completeness auto
termination
  by (relation "measure id") auto

declare show_nat.simps [simp del]

definition show_int :: "int \<Rightarrow> string" where
  "show_int i = (if i < 0 then CHR ''-'' # show_nat (nat (- i)) else show_nat (nat i))"

section \<open>Plain objects\<close>

text \<open>
  \<^verbatim>\<open>flags\<close> and \<^verbatim>\<open>env\<close> are plain objects (\<^verbatim>\<open>{}\<close> and an object literal) whose values are
  strings and booleans. Such an object is modelled as the partial function from names to
  values of its own properties. The assignment \<^verbatim>\<open>obj[name] = value\<close> creates or overwrites
  the own property \<^verbatim>\<open>name\<close>, for every name but one: for \<^verbatim>\<open>__proto__\<close> it runs the setter
  of \<^verbatim>\<open>Object.prototype\<close>, which ignores a value that is no object.
\<close>

definition set_property :: "(string \<Rightarrow> 'a option) \<Rightarrow> string \<Rightarrow> 'a \<Rightarrow> string \<Rightarrow> 'a option" where
  "set_property obj nm v = (if nm = ''__proto__'' then obj else obj(nm \<mapsto> v))"

text \<open>
  A read \<^verbatim>\<open>obj[name]\<close> finds the own property or, when there is none, what the object
  inherits from \<^verbatim>\<open>Object.prototype\<close>: a function for eleven names and the prototype itself
  for \<^verbatim>\<open>__proto__\<close>. \<open>inherited_text\<close> is the string that such a value becomes when
  \<^verbatim>\<open>String.prototype.replace\<close> inserts it (as V8 prints a built-in function). The flags that
  the handlers modelled here read, \<^verbatim>\<open>e\<close>, \<^verbatim>\<open>n\<close>, \<^verbatim>\<open>l\<close>, \<^verbatim>\<open>w\<close> and \<^verbatim>\<open>c\<close>, and the
  variable \<^verbatim>\<open>HOME\<close> are not among these names.
\<close>

definition inherited_text :: "string \<Rightarrow> string option" where
  "inherited_text nm =
     (if nm = ''__proto__'' then Some ''[object Object]''
      else if nm = ''constructor'' then Some ''function Object() { [native code] }''
      else if nm \<in> set [''__defineGetter__'', ''__defineSetter__'', ''hasOwnProperty'',
                          ''__lookupGetter__'', ''__lookupSetter__'', ''isPrototypeOf'',
                          ''propertyIsEnumerable'', ''toString'', ''valueOf'', ''toLocaleString'']
      then Some (''function '' @ nm @ ''() { [native code] }'')
      else None)"

section \<open>The command parser\<close>

datatype operator = Pipe | AndAnd | OrOr | Semi

datatype segment = CommandSeg string | OperatorSeg operator

datatype flagval = FlagStr string | FlagTrue

record ParsedCommand =
  command :: string
  args :: "string list"
  rawArgs :: string
  flags :: "string \<Rightarrow> flagval option"
  inputRedirect :: "string option"
  outputRedirect :: "(string \<times> bool) option"

record Pipeline =
  commands :: "ParsedCommand list"
  operators :: "operator list"

text \<open>
  \<^verbatim>\<open>if (current.trim()) results.push({ type: 'command', value: current.trim() })\<close>, the
  statement \<^verbatim>\<open>splitPipeline\<close> runs before every operator and at the end.
\<close>

definition push_command :: "segment list \<Rightarrow> string \<Rightarrow> segment list" where
  "push_command results current =
     (if trim current \<noteq> [] then results @ [CommandSeg (trim current)] else results)"

text \<open>
  The loop of \<^verbatim>\<open>splitPipeline\<close> over the characters that are left; \<^verbatim>\<open>input[i + 1]\<close> is
  the head of \<open>rest\<close>, and \<^verbatim>\<open>i++\<close> drops it.
\<close>

fun splitPipeline_loop ::
  "segment list \<Rightarrow> string \<Rightarrow> bool \<Rightarrow> bool \<Rightarrow> bool \<Rightarrow> string \<Rightarrow> segment list" where
  "splitPipeline_loop results current inSingleQuote inDoubleQuote escaped [] =
     push_command results current"
| "splitPipeline_loop results current inSingleQuote inDoubleQuote escaped (c # rest) =
     (if escaped then
        splitPipeline_loop results (current @ [c]) inSingleQuote inDoubleQuote False rest
      else if c = CHR 0x5C then
        splitPipeline_loop results (current @ [c]) inSingleQuote inDoubleQuote True rest
      else if c = CHR 0x27 \<and> \<not> inDoubleQuote then
        splitPipeline_loop results (current @ [c]) (\<not> inSingleQuote) inDoubleQuote escaped rest
      else if c = CHR 0x22 \<and> \<not> inSingleQuote then
        splitPipeline_loop results (current @ [c]) inSingleQuote (\<not> inDoubleQuote) escaped rest
      else if inSingleQuote \<or> inDoubleQuote then
        splitPipeline_loop results (current @ [c]) inSingleQuote inDoubleQuote escaped rest
      else if c = CHR ''|'' \<and> startsWith rest ''|'' then
        splitPipeline_loop (push_command results current @ [OperatorSeg OrOr]) []
          inSingleQuote inDoubleQuote escaped (tl rest)
      else if c = CHR ''&'' \<and> startsWith rest ''&'' then
        splitPipeline_loop (push_command results current @ [OperatorSeg AndAnd]) []
          inSingleQuote inDoubleQuote escaped (tl rest)
      else if c = CHR ''|'' then
        splitPipeline_loop (push_command results current @ [OperatorSeg Pipe]) []
          inSingleQuote inDoubleQuote escaped rest
      else if c = CHR '';'' then
        splitPipeline_loop (push_command results current @ [OperatorSeg Semi]) []
          inSingleQuote inDoubleQuote escaped rest
      else
        splitPipeline_loop results (current @ [c]) inSingleQuote inDoubleQuote escaped rest)"

definition splitPipeline :: "string \<Rightarrow> segment list" where
  "splitPipeline input = splitPipeline_loop [] [] False False False input"

text \<open>\<^verbatim>\<open>tokenize\<close>.\<close>

fun tokenize_loop ::
  "string list \<Rightarrow> string \<Rightarrow> bool \<Rightarrow> bool \<Rightarrow> bool \<Rightarrow> string \<Rightarrow> string list" where
  "tokenize_loop tokens current inSingleQuote inDoubleQuote escaped [] =
     (if current \<noteq> [] then tokens @ [current] else tokens)"
| "tokenize_loop tokens current inSingleQuote inDoubleQuote escaped (c # rest) =
     (if escaped then
        tokenize_loop tokens (current @ [c]) inSingleQuote inDoubleQuote False rest
      else if c = CHR 0x5C \<and> \<not> inSingleQuote then
        tokenize_loop tokens current inSingleQuote inDoubleQuote True rest
      else if c = CHR 0x27 \<and> \<not> inDoubleQuote then
        tokenize_loop tokens current (\<not> inSingleQuote) inDoubleQuote escaped rest
      else if c = CHR 0x22 \<and> \<not> inSingleQuote then
        tokenize_loop tokens current inSingleQuote (\<not> inDoubleQuote) escaped rest
      else if c = CHR '' '' \<and> \<not> inSingleQuote \<and> \<not> inDoubleQuote then
        (if current \<noteq> [] then
           tokenize_loop (tokens @ [current]) [] inSingleQuote inDoubleQuote escaped rest
         else tokenize_loop tokens current inSingleQuote inDoubleQuote escaped rest)
      else
        tokenize_loop tokens (current @ [c]) inSingleQuote inDoubleQuote escaped rest)"

definition tokenize :: "string \<Rightarrow> string list" where
  "tokenize input = tokenize_loop [] [] False False False input"

text \<open>
  The \<^verbatim>\<open>while\<close> loop of \<^verbatim>\<open>parseCommand\<close> over the tokens from index 1 on; the state is
  \<^verbatim>\<open>args\<close>, \<^verbatim>\<open>flags\<close>, \<^verbatim>\<open>outputRedirect\<close> and \<^verbatim>\<open>inputRedirect\<close>. \<^verbatim>\<open>i + 1 < tokens.length\<close>
  says that \<open>rest\<close> is not empty, and \<^verbatim>\<open>tokens[i + 1]\<close> is its head.
\<close>

text \<open>
  \<^verbatim>\<open>token.startsWith('-') && token.length > 1 && !token.startsWith('-')\<close>, the condition
  of the branch commented \<^verbatim>\<open>// Short flags (-f, -rf, -p value)\<close>.
\<close>

definition short_flags_condition :: "string \<Rightarrow> bool" where
  "short_flags_condition token =
     (startsWith token ''-'' \<and> length token > 1 \<and> \<not> startsWith token ''-'')"

type_synonym parse_state =
  "string list \<times> (string \<Rightarrow> flagval option) \<times> (string \<times> bool) option \<times> string option"

function parseCommand_loop :: "string list \<Rightarrow> parse_state \<Rightarrow> parse_state" where
  "parseCommand_loop [] st = st"
| "parseCommand_loop (token # rest) (args', flags', outputRedirect', inputRedirect') =
     (if token = ''>>'' \<and> rest \<noteq> [] then
        parseCommand_loop (tl rest) (args', flags', Some (hd rest, True), inputRedirect')
      else if token = ''>'' \<and> rest \<noteq> [] then
        parseCommand_loop (tl rest) (args', flags', Some (hd rest, False), inputRedirect')
      else if startsWith token ''>>'' then
        parseCommand_loop rest (args', flags', Some (drop 2 token, True), inputRedirect')
      else if startsWith token ''>'' \<and> length token > 1 then
        parseCommand_loop rest (args', flags', Some (drop 1 token, False), inputRedirect')
      else if token = ''<'' \<and> rest \<noteq> [] then
        parseCommand_loop (tl rest) (args', flags', outputRedirect', Some (hd rest))
      else if startsWith token ''--'' then
        (case indexOf token CHR ''='' of
           Some eqIndex \<Rightarrow>
             parseCommand_loop rest
               (args', set_property flags' (slice token 2 eqIndex) (FlagStr (drop (eqIndex + 1) token)),
                outputRedirect', inputRedirect')
         | None \<Rightarrow>
             if rest \<noteq> [] \<and> \<not> startsWith (hd rest) ''-'' then
               parseCommand_loop (tl rest)
                 (args', set_property flags' (drop 2 token) (FlagStr (hd rest)),
                  outputRedirect', inputRedirect')
             else
               parseCommand_loop rest
                 (args', set_property flags' (drop 2 token) FlagTrue,
                  outputRedirect', inputRedirect'))
      else if short_flags_condition token then
        parseCommand_loop rest
          (args', foldl (\<lambda>f ch. set_property f [ch] FlagTrue) flags' (drop 1 token),
           outputRedirect', inputRedirect')
      else
        parseCommand_loop rest (args' @ [token], flags', outputRedirect', inputRedirect'))"
  by pat_completeness auto
termination
  by (relation "measure (\<lambda>(ts, st). length ts)") auto

definition parseCommand :: "string \<Rightarrow> ParsedCommand" where
  "parseCommand input =
     (let tokens = tokenize input in
      if tokens = [] then
        \<lparr>command = [], args = [], rawArgs = [], flags = Map.empty,
         inputRedirect = None, outputRedirect = None\<rparr>
      else
        (case parseCommand_loop (tl tokens) ([], Map.empty, None, None) of
           (args', flags', outputRedirect', inputRedirect') \<Rightarrow>
             \<lparr>command = hd tokens, args = args', rawArgs = join '' '' (tl tokens),
              flags = flags', inputRedirect = inputRedirect',
              outputRedirect = outputRedirect'\<rparr>))"

text \<open>\<^verbatim>\<open>parse\<close>: the segments are sorted into commands and operators.\<close>

fun parse_loop :: "segment list \<Rightarrow> Pipeline \<Rightarrow> Pipeline" where
  "parse_loop [] p = p"
| "parse_loop (OperatorSeg v # segs) p = parse_loop segs (p\<lparr>operators := operators p @ [v]\<rparr>)"
| "parse_loop (CommandSeg v # segs) p =
     parse_loop segs (p\<lparr>commands := commands p @ [parseCommand v]\<rparr>)"

definition parse :: "string \<Rightarrow> Pipeline" where
  "parse input = parse_loop (splitPipeline input) \<lparr>commands = [], operators = []\<rparr>"

section \<open>The command context\<close>

text \<open>
  \<^verbatim>\<open>CommandContext\<close> without its \<^verbatim>\<open>challenge\<close> record, which none of the handlers
  modelled here reads. \<^verbatim>\<open>env\<close> holds the own properties of the object behind it.
\<close>

record CommandContext =
  cwd :: string
  env :: "string \<Rightarrow> string option"
  fs :: FSNode
  ctxExitCode :: int
  user :: string
  hostname :: string

text \<open>The context the constructor builds around a filesystem.\<close>

definition initial_env :: "string \<Rightarrow> string option" where
  "initial_env =
     [''HOME'' \<mapsto> ''/home/candidate'', ''USER'' \<mapsto> ''candidate'',
      ''PATH'' \<mapsto> ''/usr/local/bin:/usr/bin:/bin'', ''SHELL'' \<mapsto> ''/bin/bash'',
      ''TERM'' \<mapsto> ''xterm-256color'', ''NODE_ENV'' \<mapsto> ''development'',
      ''PWD'' \<mapsto> ''/opt/fleetcore'']"

definition new_context :: "FSNode \<Rightarrow> CommandContext" where
  "new_context root =
     \<lparr>cwd = ''/opt/fleetcore'', env = initial_env, fs = root, ctxExitCode = 0,
      user = ''candidate'', hostname = ''fleetcore''\<rparr>"

text \<open>
  \<^verbatim>\<open>env[name] || ''\<close> as the replacement text: the own property, or else the inherited value
  (a function or an object, so truthy) as a string, or else the empty string.
\<close>

definition env_or_empty :: "(string \<Rightarrow> string option) \<Rightarrow> string \<Rightarrow> string" where
  "env_or_empty e nm =
     (case e nm of
        Some v \<Rightarrow> v
      | None \<Rightarrow> (case inherited_text nm of Some t \<Rightarrow> t | None \<Rightarrow> []))"

text \<open>\<^verbatim>\<open>s.replace(/\$(\w+)/g, (_, name) => env[name] || '')\<close>.\<close>

function expand_dollar :: "(string \<Rightarrow> string option) \<Rightarrow> string \<Rightarrow> string" where
  "expand_dollar e [] = []"
| "expand_dollar e (c # cs) =
     (if c = CHR ''$'' \<and> takeWhile is_word_char cs \<noteq> [] then
        env_or_empty e (takeWhile is_word_char cs) @ expand_dollar e (dropWhile is_word_char cs)
      else c # expand_dollar e cs)"
  by pat_completeness auto
termination
  by (relation "measure (\<lambda>(e, s). length s)") (auto simp: length_dropWhile_le less_Suc_eq_le)

text \<open>\<^verbatim>\<open>s.replace(/\$\{(\w+)\}/g, (_, name) => env[name] || '')\<close>.\<close>

function expand_braces :: "(string \<Rightarrow> string option) \<Rightarrow> string \<Rightarrow> string" where
  "expand_braces e [] = []"
| "expand_braces e (c # cs) =
     (if c = CHR ''$'' \<and> startsWith cs ''{'' \<and> takeWhile is_word_char (drop 1 cs) \<noteq> [] \<and>
         startsWith (dropWhile is_word_char (drop 1 cs)) ''}'' then
        env_or_empty e (takeWhile is_word_char (drop 1 cs)) @
          expand_braces e (drop 1 (dropWhile is_word_char (drop 1 cs)))
      else c # expand_braces e cs)"
  by pat_completeness auto
termination
proof (relation "measure (\<lambda>(e, s). length s)")
  show "wf (measure (\<lambda>(e, s). length s))" by simp
next
  fix e :: "string \<Rightarrow> string option" and c :: char and cs :: string
  have "length (dropWhile is_word_char (drop 1 cs)) \<le> length cs"
    using length_dropWhile_le[of is_word_char "drop 1 cs"] by simp
  then show "((e, drop 1 (dropWhile is_word_char (drop 1 cs))), (e, c # cs))
             \<in> measure (\<lambda>(e, s). length s)"
    by simp
next
  fix e :: "string \<Rightarrow> string option" and c :: char and cs :: string
  show "((e, cs), (e, c # cs)) \<in> measure (\<lambda>(e, s). length s)" by simp
qed

text \<open>
  \<^verbatim>\<open>CommandContext.resolvePath\<close>. \<^verbatim>\<open>this.env.HOME + path.slice(1)\<close> concatenates the text
  \<^verbatim>\<open>undefined\<close> when \<^verbatim>\<open>HOME\<close> is not set.
\<close>

definition ctx_resolvePath :: "CommandContext \<Rightarrow> string \<Rightarrow> string" where
  "ctx_resolvePath ctx path =
     (let p1 = (if startsWith path ''~''
                then (case env ctx ''HOME'' of Some h \<Rightarrow> h | None \<Rightarrow> ''undefined'') @ drop 1 path
                else path);
          p2 = expand_dollar (env ctx) p1;
          p3 = expand_braces (env ctx) p2
      in resolvePath p3 (cwd ctx))"

section \<open>Command handlers\<close>

record CommandResult =
  outputText :: string
  exitCode :: int

text \<open>
  A handler takes the parsed command, the context, the optional \<^verbatim>\<open>stdin\<close> and the reading
  of the clock. It returns its result with the context as it leaves it, or, when it throws,
  the exception with the context as it was at that moment.
\<close>

type_synonym handler_result = "(exn \<times> CommandContext) + (CommandResult \<times> CommandContext)"

type_synonym CommandHandler =
  "ParsedCommand \<Rightarrow> CommandContext \<Rightarrow> string option \<Rightarrow> int \<Rightarrow> handler_result"

text \<open>A flag value used as a condition, and compared with \<^verbatim>\<open>=== true\<close>.\<close>

definition flag_truthy :: "flagval option \<Rightarrow> bool" where
  "flag_truthy v = (case v of None \<Rightarrow> False | Some FlagTrue \<Rightarrow> True | Some (FlagStr s) \<Rightarrow> s \<noteq> [])"

definition flag_is_true :: "flagval option \<Rightarrow> bool" where
  "flag_is_true v = (v = Some FlagTrue)"

definition handleTrue :: CommandHandler where
  "handleTrue cmd ctx stdin now = Inr (\<lparr>outputText = [], exitCode = 0\<rparr>, ctx)"

definition handleFalse :: CommandHandler where
  "handleFalse cmd ctx stdin now = Inr (\<lparr>outputText = [], exitCode = 1\<rparr>, ctx)"

definition handleEcho :: CommandHandler where
  "handleEcho cmd ctx stdin now =
     (let out1 = join '' '' (args cmd);
          out2 = expand_dollar (env ctx) out1;
          out3 = expand_braces (env ctx) out2;
          out4 = (if flag_is_true (flags cmd ''e'') then
                    replace_all [CHR 0x5C, CHR 0x5C] [CHR 0x5C]
                      (replace_all [CHR 0x5C, CHR ''t''] [CHR 0x09]
                         (replace_all [CHR 0x5C, CHR ''n''] [CHR 0x0A] out3))
                  else out3)
      in Inr (\<lparr>outputText = out4, exitCode = 0\<rparr>, ctx))"

text \<open>\<^verbatim>\<open>handleWc\<close>; \<open>wc_getText\<close> is its inner function \<^verbatim>\<open>getText\<close>.\<close>

definition wc_getText ::
  "ParsedCommand \<Rightarrow> CommandContext \<Rightarrow> string option \<Rightarrow> (string \<times> string) option" where
  "wc_getText cmd ctx stdin =
     (if args cmd = [] \<and> truthy stdin then Some ((case stdin of Some t \<Rightarrow> t | None \<Rightarrow> []), [])
      else if args cmd = [] then None
      else (case readFile (fs ctx) (ctx_resolvePath ctx (hd (args cmd))) ''/'' of
              None \<Rightarrow> None
            | Some text \<Rightarrow> Some (text, hd (args cmd))))"

definition handleWc :: CommandHandler where
  "handleWc cmd ctx stdin now =
     (case wc_getText cmd ctx stdin of
        None \<Rightarrow>
          Inr (\<lparr>outputText = (if args cmd \<noteq> []
                           then ''wc: '' @ hd (args cmd) @ '': No such file or directory''
                           else []),
                exitCode = 1\<rparr>, ctx)
      | Some (text, nm) \<Rightarrow>
          (let lineCount = length (split_on CHR 0x0A text)
                             - (if endsWith text [CHR 0x0A] then 1 else 0);
               wordCount = length (filter_Boolean (split_ws text));
               charCount = length text
           in if flag_truthy (flags cmd ''l'') then
                Inr (\<lparr>outputText = trim (show_nat lineCount @ '' '' @ nm), exitCode = 0\<rparr>, ctx)
              else if flag_truthy (flags cmd ''w'') then
                Inr (\<lparr>outputText = trim (show_nat wordCount @ '' '' @ nm), exitCode = 0\<rparr>, ctx)
              else if flag_truthy (flags cmd ''c'') then
                Inr (\<lparr>outputText = trim (show_nat charCount @ '' '' @ nm), exitCode = 0\<rparr>, ctx)
              else
                Inr (\<lparr>outputText = trim (''  '' @ show_nat lineCount @ ''  '' @ show_nat wordCount
                                      @ '' '' @ show_nat charCount @ '' '' @ nm),
                      exitCode = 0\<rparr>, ctx)))"

text \<open>
  \<^verbatim>\<open>handleMv\<close>. The result of \<^verbatim>\<open>writeFile\<close> and of \<^verbatim>\<open>rm\<close> is dropped, as in the
  source; an exception of either leaves the handler.
\<close>

definition handleMv :: CommandHandler where
  "handleMv cmd ctx stdin now =
     (if length (args cmd) < 2 then
        Inr (\<lparr>outputText = ''mv: missing file operand'', exitCode = 1\<rparr>, ctx)
      else
        (let src = ctx_resolvePath ctx (args cmd ! 0);
             dest = ctx_resolvePath ctx (args cmd ! 1)
         in case readFile (fs ctx) src ''/'' of
              None \<Rightarrow>
                Inr (\<lparr>outputText = ''mv: cannot stat '' @ [CHR 0x27] @ (args cmd ! 0) @ [CHR 0x27]
                                 @ '': No such file or directory'',
                      exitCode = 1\<rparr>, ctx)
            | Some text \<Rightarrow>
                (case (if isDirectory (fs ctx) dest ''/''
                       then writeFile (fs ctx) (dest @ ''/'' @ last (split_on CHR ''/'' src))
                              text ''/'' now
                       else writeFile (fs ctx) dest text ''/'' now) of
                   Inl e \<Rightarrow> Inl (e, ctx)
                 | Inr (written, fs1) \<Rightarrow>
                     (case rm fs1 src ''/'' False of
                        Inl e \<Rightarrow> Inl (e, ctx\<lparr>fs := fs1\<rparr>)
                      | Inr (removed, fs2) \<Rightarrow>
                          Inr (\<lparr>outputText = [], exitCode = 0\<rparr>, ctx\<lparr>fs := fs2\<rparr>)))))"

section \<open>The registry and the pipeline executor\<close>

record CommandRegistry =
  handlers :: "string \<Rightarrow> CommandHandler option"
  aliases :: "string \<Rightarrow> string option"

text \<open>\<^verbatim>\<open>CommandRegistry.get\<close>: \<^verbatim>\<open>this.aliases.get(name) || name\<close>, then the handler.\<close>

definition registry_get :: "CommandRegistry \<Rightarrow> string \<Rightarrow> CommandHandler option" where
  "registry_get reg nm =
     handlers reg (case aliases reg nm of
                     Some t \<Rightarrow> if t \<noteq> [] then t else nm
                   | None \<Rightarrow> nm)"

text \<open>
  The part of the registry the terminal engine builds that is modelled here: the handlers
  above under the names \<^verbatim>\<open>registerSystemCommands\<close> and \<^verbatim>\<open>registerFilesystemCommands\<close> give
  them, and the alias \<^verbatim>\<open>ll\<close>. The other commands of the engine are not part of the model.
\<close>

definition engine_registry :: CommandRegistry where
  "engine_registry =
     \<lparr>handlers = [''echo'' \<mapsto> handleEcho, ''true'' \<mapsto> handleTrue, ''false'' \<mapsto> handleFalse,
                  ''wc'' \<mapsto> handleWc, ''mv'' \<mapsto> handleMv],
      aliases = [''ll'' \<mapsto> ''ls'']\<rparr>"

text \<open>\<^verbatim>\<open>/^[A-Za-z_]\w*$/.test(key)\<close>.\<close>

definition is_identifier :: "string \<Rightarrow> bool" where
  "is_identifier key =
     (case key of
        [] \<Rightarrow> False
      | c # cs \<Rightarrow> is_word_char c \<and> \<not> (48 \<le> (of_char c :: nat) \<and> (of_char c :: nat) \<le> 57)
                 \<and> list_all is_word_char cs)"

text \<open>
  \<^verbatim>\<open>executeCommand\<close>. The handler call and the output redirection sit in one \<^verbatim>\<open>try\<close>
  block: an exception of either becomes the result \<^verbatim>\<open>internal error\<close> with exit code 1.
\<close>

definition executeCommand ::
  "CommandRegistry \<Rightarrow> ParsedCommand \<Rightarrow> CommandContext \<Rightarrow> string option \<Rightarrow> int
   \<Rightarrow> CommandResult \<times> CommandContext" where
  "executeCommand reg cmd ctx stdin now =
     (if command cmd = [] then (\<lparr>outputText = [], exitCode = 0\<rparr>, ctx)
      else if CHR ''='' \<in> set (command cmd) \<and> \<not> startsWith (command cmd) ''=''
              \<and> is_identifier (takeWhile (\<lambda>c. c \<noteq> CHR ''='') (command cmd)) then
        (\<lparr>outputText = [], exitCode = 0\<rparr>,
         ctx\<lparr>env := set_property (env ctx) (takeWhile (\<lambda>c. c \<noteq> CHR ''='') (command cmd))
                        (drop 1 (dropWhile (\<lambda>c. c \<noteq> CHR ''='') (command cmd)))\<rparr>)
      else
        (case registry_get reg (command cmd) of
           None \<Rightarrow> (\<lparr>outputText = command cmd @ '': command not found'', exitCode = 127\<rparr>, ctx)
         | Some handler \<Rightarrow>
             (case handler cmd ctx stdin now of
                Inl (e, ctx1) \<Rightarrow>
                  (\<lparr>outputText = command cmd @ '': internal error'', exitCode = 1\<rparr>, ctx1)
              | Inr (result, ctx1) \<Rightarrow>
                  (let ctx2 = ctx1\<lparr>ctxExitCode := exitCode result\<rparr> in
                   case outputRedirect cmd of
                     None \<Rightarrow> (result, ctx2)
                   | Some (file, doAppend) \<Rightarrow>
                       (case (if doAppend
                              then appendFile (fs ctx2) (ctx_resolvePath ctx2 file)
                                     (outputText result @ [CHR 0x0A]) ''/'' now
                              else writeFile (fs ctx2) (ctx_resolvePath ctx2 file)
                                     (outputText result @ [CHR 0x0A]) ''/'' now) of
                          Inl e \<Rightarrow>
                            (\<lparr>outputText = command cmd @ '': internal error'', exitCode = 1\<rparr>, ctx2)
                        | Inr (ok, fs1) \<Rightarrow>
                            (\<lparr>outputText = [], exitCode = exitCode result\<rparr>, ctx2\<lparr>fs := fs1\<rparr>))))))"

text \<open>
  The loop of \<^verbatim>\<open>executePipeline\<close>: the commands from index \<open>i\<close> on, with \<^verbatim>\<open>lastResult\<close>
  and \<^verbatim>\<open>pipeInput\<close>. \<^verbatim>\<open>pipeline.operators[i - 1]\<close> is \<^verbatim>\<open>undefined\<close> for the first command
  and past the end of the operators. A \<^verbatim>\<open>break\<close> returns \<^verbatim>\<open>lastResult\<close>.
\<close>

definition operator_at :: "operator list \<Rightarrow> nat \<Rightarrow> operator option" where
  "operator_at ops i = (if i < length ops then Some (ops ! i) else None)"

fun executePipeline_loop ::
  "CommandRegistry \<Rightarrow> operator list \<Rightarrow> nat \<Rightarrow> ParsedCommand list \<Rightarrow> CommandResult
   \<Rightarrow> string option \<Rightarrow> CommandContext \<Rightarrow> int \<Rightarrow> CommandResult \<times> CommandContext" where
  "executePipeline_loop reg ops i [] lastResult pipeInput ctx now = (lastResult, ctx)"
| "executePipeline_loop reg ops i (cmd # rest) lastResult pipeInput ctx now =
     (let operator = (if i > 0 then operator_at ops (i - 1) else None) in
      if operator = Some AndAnd \<and> exitCode lastResult \<noteq> 0 then (lastResult, ctx)
      else if operator = Some OrOr \<and> exitCode lastResult = 0 then (lastResult, ctx)
      else
        (case executeCommand reg cmd ctx pipeInput now of
           (result, ctx1) \<Rightarrow>
             (let pipeInput1 = (if operator = Some Pipe then Some (outputText result) else None);
                  pipeInput2 = (if i < length ops \<and> ops ! i = Pipe then Some (outputText result)
                                else pipeInput1)
              in executePipeline_loop reg ops (i + 1) rest result pipeInput2 ctx1 now)))"

definition executePipeline ::
  "CommandRegistry \<Rightarrow> Pipeline \<Rightarrow> CommandContext \<Rightarrow> int \<Rightarrow> CommandResult \<times> CommandContext" where
  "executePipeline reg pipeline ctx now =
     executePipeline_loop reg (operators pipeline) 0 (commands pipeline)
       \<lparr>outputText = [], exitCode = 0\<rparr> None ctx now"

definition execute ::
  "CommandRegistry \<Rightarrow> string \<Rightarrow> CommandContext \<Rightarrow> int \<Rightarrow> CommandResult \<times> CommandContext" where
  "execute reg input ctx now =
     (let pipeline = parse input in
      if length (commands pipeline) = 0 then (\<lparr>outputText = [], exitCode = 0\<rparr>, ctx)
      else if length (commands pipeline) = 1 \<and> length (operators pipeline) = 0 then
        executeCommand reg (hd (commands pipeline)) ctx None now
      else executePipeline reg pipeline ctx now)"

section \<open>Inputs and counting functions used by the theorems\<close>

definition short_circuit_line :: string where
  "short_circuit_line = ''false && echo should-not-appear ; true && echo yes''"

definition quoted_pipeline_line :: string where
  \<open>quoted_pipeline_line = ''echo "hello world" | wc -w''\<close>

definition quoted_pipeline_long_flag_line :: string where
  \<open>quoted_pipeline_long_flag_line = ''echo "hello world" | wc --w''\<close>

definition shifted_operator_line :: string where
  "shifted_operator_line = ''false ;; true || echo hi''"

definition lost_pipe_line :: string where
  "lost_pipe_line = ''true ;; echo a b | wc --w''"

definition kept_pipe_line :: string where
  "kept_pipe_line = ''true ; echo a b | wc --w''"

fun is_command_seg :: "segment \<Rightarrow> bool" where
  "is_command_seg (CommandSeg v) = True"
| "is_command_seg (OperatorSeg v) = False"

definition ncmd :: "segment list \<Rightarrow> nat" where
  "ncmd segs = length (filter is_command_seg segs)"

definition nop :: "segment list \<Rightarrow> nat" where
  "nop segs = length (filter (\<lambda>s. \<not> is_command_seg s) segs)"

section \<open>The line editor\<close>

text \<open>
  \<^verbatim>\<open>s.slice(a, b)\<close> and \<^verbatim>\<open>s.slice(a)\<close> for arbitrary integers: a negative index counts
  from the end, and both are clamped to the string. \<^verbatim>\<open>s[i]\<close> is \<^verbatim>\<open>undefined\<close> out of range.
\<close>

definition js_index :: "int \<Rightarrow> nat \<Rightarrow> nat" where
  "js_index i len = (if i < 0 then nat (max (int len + i) 0) else min (nat i) len)"

definition js_slice :: "'a list \<Rightarrow> int \<Rightarrow> int \<Rightarrow> 'a list" where
  "js_slice s a b = take (js_index b (length s) - js_index a (length s)) (drop (js_index a (length s)) s)"

definition js_slice_from :: "'a list \<Rightarrow> int \<Rightarrow> 'a list" where
  "js_slice_from s a = drop (js_index a (length s)) s"

definition char_at :: "string \<Rightarrow> int \<Rightarrow> char option" where
  "char_at s i = (if 0 \<le> i \<and> i < int (length s) then Some (s ! nat i) else None)"

text \<open>The escape sequence \<^verbatim>\<open>\x1b[<n><letter>\<close>.\<close>

definition csi :: "int \<Rightarrow> char \<Rightarrow> string" where
  "csi n letter = [CHR 0x1B, CHR ''[''] @ show_int n @ [letter]"

definition spaces :: "int \<Rightarrow> string" where
  "spaces n = replicate (nat n) CHR '' ''"

record InputBuffer =
  buffer :: string
  cursorPos :: int
  history :: "string list"
  historyIndex :: int
  tempBuffer :: string

definition new_InputBuffer :: InputBuffer where
  "new_InputBuffer = \<lparr>buffer = [], cursorPos = 0, history = [], historyIndex = - 1, tempBuffer = []\<rparr>"

text \<open>
  Every method returns the text to echo and the new state. \<^verbatim>\<open>historyUp\<close> and
  \<^verbatim>\<open>historyDown\<close> read \<^verbatim>\<open>this.history[this.historyIndex]\<close>; out of range that is
  \<^verbatim>\<open>undefined\<close> and \<^verbatim>\<open>replaceLine\<close> throws on \<^verbatim>\<open>newContent.length\<close>, so the methods return
  a sum.
\<close>

definition clear_ib :: "InputBuffer \<Rightarrow> InputBuffer" where
  "clear_ib ib = ib\<lparr>buffer := [], cursorPos := 0, historyIndex := - 1\<rparr>"

definition insert_ib :: "string \<Rightarrow> InputBuffer \<Rightarrow> string \<times> InputBuffer" where
  "insert_ib char ib =
     (let before = js_slice (buffer ib) 0 (cursorPos ib);
          after = js_slice_from (buffer ib) (cursorPos ib);
          ib1 = ib\<lparr>buffer := before @ char @ after,
                    cursorPos := cursorPos ib + int (length char)\<rparr>
      in if length after > 0 then (char @ after @ csi (int (length after)) CHR ''D'', ib1)
         else (char, ib1))"

definition backspace :: "InputBuffer \<Rightarrow> string \<times> InputBuffer" where
  "backspace ib =
     (if cursorPos ib = 0 then ([], ib)
      else
        (let before = js_slice (buffer ib) 0 (cursorPos ib - 1);
             after = js_slice_from (buffer ib) (cursorPos ib);
             ib1 = ib\<lparr>buffer := before @ after, cursorPos := cursorPos ib - 1\<rparr>
         in if length after > 0 then
              ([CHR 0x1B, CHR ''['', CHR ''D''] @ after @ '' ''
                 @ csi (int (length after) + 1) CHR ''D'', ib1)
            else ([CHR 0x1B, CHR ''['', CHR ''D'', CHR '' '', CHR 0x1B, CHR ''['', CHR ''D''], ib1)))"

definition delete_ib :: "InputBuffer \<Rightarrow> string \<times> InputBuffer" where
  "delete_ib ib =
     (if cursorPos ib \<ge> int (length (buffer ib)) then ([], ib)
      else
        (let before = js_slice (buffer ib) 0 (cursorPos ib);
             after = js_slice_from (buffer ib) (cursorPos ib + 1)
         in (after @ '' '' @ csi (int (length after) + 1) CHR ''D'',
             ib\<lparr>buffer := before @ after\<rparr>)))"

definition moveLeft :: "InputBuffer \<Rightarrow> string \<times> InputBuffer" where
  "moveLeft ib =
     (if cursorPos ib = 0 then ([], ib)
      else ([CHR 0x1B, CHR ''['', CHR ''D''], ib\<lparr>cursorPos := cursorPos ib - 1\<rparr>))"

definition moveRight :: "InputBuffer \<Rightarrow> string \<times> InputBuffer" where
  "moveRight ib =
     (if cursorPos ib \<ge> int (length (buffer ib)) then ([], ib)
      else ([CHR 0x1B, CHR ''['', CHR ''C''], ib\<lparr>cursorPos := cursorPos ib + 1\<rparr>))"

definition moveToStart :: "InputBuffer \<Rightarrow> string \<times> InputBuffer" where
  "moveToStart ib =
     (if cursorPos ib = 0 then ([], ib)
      else (csi (cursorPos ib) CHR ''D'', ib\<lparr>cursorPos := 0\<rparr>))"

definition moveToEnd :: "InputBuffer \<Rightarrow> string \<times> InputBuffer" where
  "moveToEnd ib =
     (if cursorPos ib \<ge> int (length (buffer ib)) then ([], ib)
      else (csi (int (length (buffer ib)) - cursorPos ib) CHR ''C'',
            ib\<lparr>cursorPos := int (length (buffer ib))\<rparr>))"

definition killToEnd :: "InputBuffer \<Rightarrow> string \<times> InputBuffer" where
  "killToEnd ib =
     (if cursorPos ib \<ge> int (length (buffer ib)) then ([], ib)
      else
        (let killed = int (length (buffer ib)) - cursorPos ib
         in (spaces killed @ csi killed CHR ''D'',
             ib\<lparr>buffer := js_slice (buffer ib) 0 (cursorPos ib)\<rparr>)))"

definition killToStart :: "InputBuffer \<Rightarrow> string \<times> InputBuffer" where
  "killToStart ib =
     (if cursorPos ib = 0 then ([], ib)
      else
        (let killed = cursorPos ib;
             buffer1 = js_slice_from (buffer ib) (cursorPos ib)
         in (csi killed CHR ''D'' @ buffer1 @ spaces killed
               @ csi (int (length buffer1) + killed) CHR ''D'',
             ib\<lparr>buffer := buffer1, cursorPos := 0\<rparr>)))"

text \<open>The two \<^verbatim>\<open>while\<close> loops of \<^verbatim>\<open>deleteWordBack\<close>.\<close>

function skip_spaces_back :: "string \<Rightarrow> int \<Rightarrow> int" where
  "skip_spaces_back buf newPos =
     (if newPos > 0 \<and> char_at buf (newPos - 1) = Some CHR '' ''
      then skip_spaces_back buf (newPos - 1) else newPos)"
  by pat_completeness auto
termination
  by (relation "measure (\<lambda>(buf, newPos). nat newPos)") auto

function skip_word_back :: "string \<Rightarrow> int \<Rightarrow> int" where
  "skip_word_back buf newPos =
     (if newPos > 0 \<and> char_at buf (newPos - 1) \<noteq> Some CHR '' ''
      then skip_word_back buf (newPos - 1) else newPos)"
  by pat_completeness auto
termination
  by (relation "measure (\<lambda>(buf, newPos). nat newPos)") auto

declare skip_spaces_back.simps [simp del] skip_word_back.simps [simp del]

definition deleteWordBack :: "InputBuffer \<Rightarrow> string \<times> InputBuffer" where
  "deleteWordBack ib =
     (if cursorPos ib = 0 then ([], ib)
      else
        (let before = js_slice (buffer ib) 0 (cursorPos ib);
             after = js_slice_from (buffer ib) (cursorPos ib);
             newPos = skip_word_back (buffer ib)
                        (skip_spaces_back (buffer ib) (cursorPos ib - 1));
             deleted = cursorPos ib - newPos
         in (csi deleted CHR ''D'' @ after @ spaces deleted
               @ csi (int (length after) + deleted) CHR ''D'',
             ib\<lparr>buffer := js_slice before 0 newPos @ after, cursorPos := newPos\<rparr>)))"

definition replaceLine :: "string \<Rightarrow> InputBuffer \<Rightarrow> string \<times> InputBuffer" where
  "replaceLine newContent ib =
     (let clearLen = int (length (buffer ib));
          out1 = (if cursorPos ib > 0 then csi (cursorPos ib) CHR ''D'' else []);
          out2 = out1 @ spaces clearLen;
          out3 = (if clearLen > 0 then out2 @ csi clearLen CHR ''D'' else out2)
      in (out3 @ newContent,
          ib\<lparr>buffer := newContent, cursorPos := int (length newContent)\<rparr>))"

definition history_at :: "InputBuffer \<Rightarrow> string option" where
  "history_at ib =
     (if 0 \<le> historyIndex ib \<and> historyIndex ib < int (length (history ib))
      then Some (history ib ! nat (historyIndex ib)) else None)"

definition replaceLine_history :: "InputBuffer \<Rightarrow> exn + (string \<times> InputBuffer)" where
  "replaceLine_history ib =
     (case history_at ib of None \<Rightarrow> Inl TypeError | Some line \<Rightarrow> Inr (replaceLine line ib))"

definition historyUp :: "InputBuffer \<Rightarrow> exn + (string \<times> InputBuffer)" where
  "historyUp ib =
     (if length (history ib) = 0 then Inr ([], ib)
      else if historyIndex ib = - 1 then
        replaceLine_history
          (ib\<lparr>tempBuffer := buffer ib, historyIndex := int (length (history ib)) - 1\<rparr>)
      else if historyIndex ib > 0 then
        replaceLine_history (ib\<lparr>historyIndex := historyIndex ib - 1\<rparr>)
      else Inr ([], ib))"

definition historyDown :: "InputBuffer \<Rightarrow> exn + (string \<times> InputBuffer)" where
  "historyDown ib =
     (if historyIndex ib = - 1 then Inr ([], ib)
      else if historyIndex ib < int (length (history ib)) - 1 then
        replaceLine_history (ib\<lparr>historyIndex := historyIndex ib + 1\<rparr>)
      else Inr (replaceLine (tempBuffer ib) (ib\<lparr>historyIndex := - 1\<rparr>)))"

text \<open>\<^verbatim>\<open>findCommonPrefix\<close>: the inner \<^verbatim>\<open>while\<close> loop, then the \<^verbatim>\<open>for\<close> loop.\<close>

function shrink_prefix :: "string \<Rightarrow> string \<Rightarrow> string" where
  "shrink_prefix s prefix =
     (if \<not> startsWith s prefix then shrink_prefix s (butlast prefix) else prefix)"
  by pat_completeness auto
termination
proof (relation "measure (\<lambda>(s, prefix). length prefix)")
  show "wf (measure (\<lambda>(s, prefix). length prefix))" by simp
next
  fix s prefix :: string
  assume "\<not> startsWith s prefix"
  then have "prefix \<noteq> []" by (auto simp: startsWith_def)
  then show "((s, butlast prefix), (s, prefix)) \<in> measure (\<lambda>(s, prefix). length prefix)"
    by simp
qed

declare shrink_prefix.simps [simp del]

definition findCommonPrefix :: "string list \<Rightarrow> string" where
  "findCommonPrefix strings =
     (if strings = [] then [] else foldl (\<lambda>prefix s. shrink_prefix s prefix) (hd strings) (tl strings))"

text \<open>
  \<^verbatim>\<open>tabComplete\<close>. The completion callback is installed by the engine and reads the
  engine's state; it is a parameter here, \<open>None\<close> when no callback is installed.
\<close>

definition tabComplete ::
  "(string \<Rightarrow> string list) option \<Rightarrow> InputBuffer \<Rightarrow> string \<times> InputBuffer" where
  "tabComplete completionCallback ib =
     (case completionCallback of
        None \<Rightarrow> ([], ib)
      | Some cb \<Rightarrow>
          (let beforeCursor = js_slice (buffer ib) 0 (cursorPos ib);
               partial = last (split_ws beforeCursor);
               candidates = cb partial
           in if length candidates = 0 then ([], ib)
              else if length candidates = 1 then
                (let completion = hd candidates;
                     toAdd = drop (length partial) completion;
                     suffix = (if endsWith completion ''/'' then [] else '' '')
                 in insert_ib (toAdd @ suffix) ib)
              else
                (let commonPrefix = findCommonPrefix candidates
                 in if length commonPrefix > length partial then
                      insert_ib (drop (length partial) commonPrefix) ib
                    else ([CHR 0x0D, CHR 0x0A] @ join ''  '' candidates @ [CHR 0x0D, CHR 0x0A], ib))))"

definition submit :: "InputBuffer \<Rightarrow> string \<times> InputBuffer" where
  "submit ib =
     (let cmdText = trim (buffer ib);
          history1 = (if cmdText \<noteq> [] then history ib @ [cmdText] else history ib)
      in (cmdText, ib\<lparr>buffer := [], cursorPos := 0, history := history1, historyIndex := - 1\<rparr>))"

fun insertText_loop :: "string \<Rightarrow> string \<Rightarrow> InputBuffer \<Rightarrow> string \<times> InputBuffer" where
  "insertText_loop out [] ib = (out, ib)"
| "insertText_loop out (c # cs) ib =
     (if c = CHR 0x0A \<or> c = CHR 0x0D then insertText_loop out cs ib
      else (case insert_ib [c] ib of (echo, ib1) \<Rightarrow> insertText_loop (out @ echo) cs ib1))"

definition insertText :: "string \<Rightarrow> InputBuffer \<Rightarrow> string \<times> InputBuffer" where
  "insertText text ib = insertText_loop [] text ib"

text \<open>The operations of the editor as data, and a run of a sequence of them.\<close>

datatype buffer_op =
    Insert string | Backspace | Delete | MoveLeft | MoveRight | MoveToStart | MoveToEnd
  | KillToEnd | KillToStart | DeleteWordBack | HistoryUp | HistoryDown
  | TabComplete "(string \<Rightarrow> string list) option" | InsertText string | Submit | Clear

fun apply_op :: "buffer_op \<Rightarrow> InputBuffer \<Rightarrow> exn + (string \<times> InputBuffer)" where
  "apply_op (Insert char) ib = Inr (insert_ib char ib)"
| "apply_op Backspace ib = Inr (backspace ib)"
| "apply_op Delete ib = Inr (delete_ib ib)"
| "apply_op MoveLeft ib = Inr (moveLeft ib)"
| "apply_op MoveRight ib = Inr (moveRight ib)"
| "apply_op MoveToStart ib = Inr (moveToStart ib)"
| "apply_op MoveToEnd ib = Inr (moveToEnd ib)"
| "apply_op KillToEnd ib = Inr (killToEnd ib)"
| "apply_op KillToStart ib = Inr (killToStart ib)"
| "apply_op DeleteWordBack ib = Inr (deleteWordBack ib)"
| "apply_op HistoryUp ib = historyUp ib"
| "apply_op HistoryDown ib = historyDown ib"
| "apply_op (TabComplete cb) ib = Inr (tabComplete cb ib)"
| "apply_op (InsertText text) ib = Inr (insertText text ib)"
| "apply_op Submit ib = Inr (submit ib)"
| "apply_op Clear ib = Inr ([], clear_ib ib)"

fun run_ops :: "buffer_op list \<Rightarrow> InputBuffer \<Rightarrow> exn + InputBuffer" where
  "run_ops [] ib = Inr ib"
| "run_ops (op # ops) ib =
     (case apply_op op ib of Inl e \<Rightarrow> Inl e | Inr (echo, ib1) \<Rightarrow> run_ops ops ib1)"

text \<open>
  The invariant of the editor: the cursor lies within the buffer, and the history index is
  \<open>-1\<close> or an index of the history.
\<close>

definition ib_inv :: "InputBuffer \<Rightarrow> bool" where
  "ib_inv ib =
     (0 \<le> cursorPos ib \<and> cursorPos ib \<le> int (length (buffer ib)) \<and>
      (historyIndex ib = - 1 \<or>
       (0 \<le> historyIndex ib \<and> historyIndex ib < int (length (history ib)))))"


section \<open>The keystroke recorder and the burst detector\<close>

record KeyMeta =
  shift :: bool
  ctrl :: bool
  alt :: bool
  meta :: bool

datatype DetectedBy = ClipboardApi | Burst | Both

datatype SessionEvent =
    KeyEvent string int KeyMeta
  | PasteEvent string int DetectedBy
  | OutputEvent string int
  | CommandEvent string int int
  | ObjectiveCompleteEvent string int
  | LevelAdvanceEvent int int
  | HintUsedEvent string int
  | FocusChangeEvent bool int
  | ResizeEvent int int int

text \<open>
  The state of a \<^verbatim>\<open>KeystrokeRecorder\<close>: its event list and the \<^verbatim>\<open>timestamps\<close> window of its
  \<^verbatim>\<open>BurstDetector\<close>. The flush timer and its callback are not part of the model.
\<close>

record KeystrokeRecorder =
  events :: "SessionEvent list"
  timestamps :: "int list"

definition new_KeystrokeRecorder :: KeystrokeRecorder where
  "new_KeystrokeRecorder = \<lparr>events = [], timestamps = []\<rparr>"

definition BURST_THRESHOLD :: int where
  "BURST_THRESHOLD = 50"

definition BURST_MIN_CHARS :: nat where
  "BURST_MIN_CHARS = 30"

text \<open>
  The loop of \<^verbatim>\<open>addKeystroke\<close> that counts the rapid keystrokes backwards from the last
  timestamp; it runs while \<^verbatim>\<open>i > 0\<close> and stops at the first gap above the threshold.
\<close>

fun burst_loop :: "int list \<Rightarrow> nat \<Rightarrow> nat \<Rightarrow> nat \<Rightarrow> nat \<times> nat" where
  "burst_loop ts 0 burstCount burstStart = (burstCount, burstStart)"
| "burst_loop ts (Suc j) burstCount burstStart =
     (if ts ! Suc j - ts ! j \<le> BURST_THRESHOLD
      then burst_loop ts j (burstCount + 1) j
      else (burstCount, burstStart))"

text \<open>
  \<^verbatim>\<open>BurstDetector.addKeystroke\<close>: the new window and the burst it reports, if any, as
  \<^verbatim>\<open>(count, duration)\<close>.
\<close>

definition addKeystroke :: "int \<Rightarrow> int list \<Rightarrow> (nat \<times> int) option \<times> int list" where
  "addKeystroke timestamp window =
     (let cutoff = timestamp - 5000;
          ts = filter (\<lambda>t. t > cutoff) (window @ [timestamp])
      in if length ts < BURST_MIN_CHARS then (None, ts)
         else
           (case burst_loop ts (length ts - 1) 1 (length ts - 1) of
              (burstCount, burstStart) \<Rightarrow>
                if burstCount \<ge> BURST_MIN_CHARS
                then (Some (burstCount, timestamp - ts ! burstStart), [])
                else (None, ts)))"

text \<open>
  \<^verbatim>\<open>recordKey\<close>; \<open>now\<close> and \<open>now2\<close> are the two readings of \<^verbatim>\<open>Date.now()\<close>, for the key
  event and for the paste event.
\<close>

definition recordKey :: "string \<Rightarrow> KeyMeta \<Rightarrow> int \<Rightarrow> int \<Rightarrow> KeystrokeRecorder \<Rightarrow> KeystrokeRecorder" where
  "recordKey key km now now2 r =
     (case addKeystroke now (timestamps r) of
        (None, window) \<Rightarrow> \<lparr>events = events r @ [KeyEvent key now km], timestamps = window\<rparr>
      | (Some (count', duration), window) \<Rightarrow>
          \<lparr>events = events r @ [KeyEvent key now km,
                                  PasteEvent (''[burst detected: '' @ show_nat count' @ '' chars in ''
                                                @ show_int duration @ ''ms]'') now2 Burst],
           timestamps = window\<rparr>)"

text \<open>
  Keystroke number \<open>i\<close> of a run: its key and modifier state, pressed at \<open>t0 + gap * i\<close>;
  \<open>later i\<close> is the second reading of the clock during that call.
\<close>

fun record_keys ::
  "nat \<Rightarrow> (nat \<Rightarrow> string) \<Rightarrow> (nat \<Rightarrow> KeyMeta) \<Rightarrow> int \<Rightarrow> int \<Rightarrow> (nat \<Rightarrow> int)
   \<Rightarrow> KeystrokeRecorder \<Rightarrow> KeystrokeRecorder" where
  "record_keys 0 key km t0 gap later r = r"
| "record_keys (Suc n) key km t0 gap later r =
     recordKey (key n) (km n) (t0 + gap * int n) (later n) (record_keys n key km t0 gap later r)"

fun is_paste :: "SessionEvent \<Rightarrow> bool" where
  "is_paste (PasteEvent c t d) = True"
| "is_paste e = False"

text \<open>The regular expression \<^verbatim>\<open>/\[burst detected: \d+ chars in \d+ms\]/\<close> as a matcher.\<close>

definition is_digit :: "char \<Rightarrow> bool" where
  "is_digit c = (48 \<le> (of_char c :: nat) \<and> (of_char c :: nat) \<le> 57)"

definition burst_pattern_here :: "string \<Rightarrow> bool" where
  "burst_pattern_here s =
     (startsWith s ''[burst detected: '' \<and>
      (let r1 = drop (length ''[burst detected: '') s;
           r2 = dropWhile is_digit r1
       in takeWhile is_digit r1 \<noteq> [] \<and> startsWith r2 '' chars in '' \<and>
          (let r3 = drop (length '' chars in '') r2;
               r4 = dropWhile is_digit r3
           in takeWhile is_digit r3 \<noteq> [] \<and> startsWith r4 ''ms]'')))"

fun matches_burst_pattern :: "string \<Rightarrow> bool" where
  "matches_burst_pattern [] = burst_pattern_here []"
| "matches_burst_pattern (c # cs) = (burst_pattern_here (c # cs) \<or> matches_burst_pattern cs)"

text \<open>Names for the events and times of a run with gaps of 20 ms.\<close>

definition key_time :: "int \<Rightarrow> nat \<Rightarrow> int" where
  "key_time t0 i = t0 + 20 * int i"

definition key_event :: "(nat \<Rightarrow> string) \<Rightarrow> (nat \<Rightarrow> KeyMeta) \<Rightarrow> int \<Rightarrow> nat \<Rightarrow> SessionEvent" where
  "key_event key km t0 i = KeyEvent (key i) (key_time t0 i) (km i)"

definition burst_paste :: "int \<Rightarrow> SessionEvent" where
  "burst_paste t = PasteEvent ''[burst detected: 30 chars in 580ms]'' t Burst"


section \<open>Positions in the tree, used to state what an update changes\<close>

text \<open>
  \<open>get_at loc root\<close> is the node at position \<open>loc\<close>. \<open>clean_parts\<close> says that a list of
  path parts is what \<^verbatim>\<open>_resolveParts\<close> returns for a normalised directory: no part is empty,
  contains a slash, or is \<^verbatim>\<open>.\<close> or \<^verbatim>\<open>..\<close>. \<open>set_entry fn v\<close> sets (\<open>v = Some x\<close>) or deletes
  (\<open>v = None\<close>) the entry \<open>fn\<close> of a directory node. When the directory at \<open>locP\<close> is changed
  by a function \<open>g\<close> that makes \<open>v\<close> the entry \<open>fn\<close>, \<open>with_entry locP g fn v loc n\<close> is what
  the node \<open>n\<close> at position \<open>loc\<close> becomes.
\<close>

fun get_at :: "string list \<Rightarrow> FSNode \<Rightarrow> FSNode option" where
  "get_at [] n = Some n"
| "get_at (k # ks) n =
     (case children n of
        None \<Rightarrow> None
      | Some m \<Rightarrow> (case m k of None \<Rightarrow> None | Some c \<Rightarrow> get_at ks c))"

definition clean_parts :: "string list \<Rightarrow> bool" where
  "clean_parts ps = list_all (\<lambda>p. p \<noteq> [] \<and> CHR ''/'' \<notin> set p \<and> p \<noteq> ''.'' \<and> p \<noteq> ''..'') ps"

definition set_entry :: "string \<Rightarrow> FSNode option \<Rightarrow> FSNode \<Rightarrow> FSNode" where
  "set_entry fn v p = (case children p of None \<Rightarrow> p | Some m \<Rightarrow> set_children (m(fn := v)) p)"

definition with_entry ::
  "string list \<Rightarrow> (FSNode \<Rightarrow> FSNode) \<Rightarrow> string \<Rightarrow> FSNode option \<Rightarrow> string list \<Rightarrow> FSNode
   \<Rightarrow> FSNode" where
  "with_entry locP g fn v loc n =
     (if take (length loc) locP = loc then update_at (drop (length loc) locP) g n
      else if loc = locP @ [fn] then (case v of Some x \<Rightarrow> x | None \<Rightarrow> n)
      else n)"

definition ref_with_entry ::
  "string list \<Rightarrow> (FSNode \<Rightarrow> FSNode) \<Rightarrow> string \<Rightarrow> FSNode option \<Rightarrow> noderef \<Rightarrow> noderef" where
  "ref_with_entry locP g fn v r = (fst r, with_entry locP g fn v (fst r) (snd r))"

text \<open>
  What a path names. \<open>parent_of root path dir\<close> is the node that the path without its last
  part resolves to, the parent directory; \<open>file_name\<close> is that last part;
  \<open>entry_of root path dir\<close> is the entry of that name in the parent (a symlink there is not
  followed) and \<open>entry_position\<close> its position in the tree; \<open>names_directory\<close> and
  \<open>names_symlink\<close> say that the entry is a directory, a symlink. \<open>parent_kind\<close> is the type
  of the parent node, and \<open>parent_is_directory\<close> says that the parent is a directory node
  that has its \<^verbatim>\<open>children\<close> map. \<open>links_to_parent\<close> are the positions of the symlinks that
  are followed on the way to the parent, and \<open>replaces_followed_link\<close> says that the entry
  is one of them. \<open>with_file root path text dir now\<close> is the tree with a new file of that
  content as the entry and nothing else changed, \<open>without_entry root path dir\<close> the tree with
  the entry deleted from the parent and nothing else changed.

  \<open>normal_cwd dir\<close> says that the directory \<open>dir\<close> has no \<^verbatim>\<open>.\<close> or \<^verbatim>\<open>..\<close> part, and
  \<open>parent_path p\<close> is the path of the directory in which \<^verbatim>\<open>writeFile\<close> and \<^verbatim>\<open>rm\<close> look
  for the last part of the absolute path \<open>p\<close>.
\<close>

definition parent_of :: "FSNode \<Rightarrow> string \<Rightarrow> string \<Rightarrow> noderef option" where
  "parent_of root path dir = walk root (butlast (resolveParts path dir)) True 0"

definition file_name :: "string \<Rightarrow> string \<Rightarrow> string" where
  "file_name path dir = last (resolveParts path dir)"

definition entry_of :: "FSNode \<Rightarrow> string \<Rightarrow> string \<Rightarrow> FSNode option" where
  "entry_of root path dir =
     (if resolveParts path dir = [] then None
      else (case parent_of root path dir of
              None \<Rightarrow> None
            | Some (loc, parent) \<Rightarrow>
                (case children parent of None \<Rightarrow> None | Some m \<Rightarrow> m (file_name path dir))))"

definition entry_position :: "FSNode \<Rightarrow> string \<Rightarrow> string \<Rightarrow> string list option" where
  "entry_position root path dir =
     map_option (\<lambda>(loc, parent). loc @ [file_name path dir]) (parent_of root path dir)"

definition names_directory :: "FSNode \<Rightarrow> string \<Rightarrow> string \<Rightarrow> bool" where
  "names_directory root path dir =
     (case entry_of root path dir of None \<Rightarrow> False | Some e \<Rightarrow> ntype e = Directory)"

definition names_symlink :: "FSNode \<Rightarrow> string \<Rightarrow> string \<Rightarrow> bool" where
  "names_symlink root path dir =
     (case entry_of root path dir of None \<Rightarrow> False | Some e \<Rightarrow> ntype e = Symlink)"

definition links_to_parent :: "FSNode \<Rightarrow> string \<Rightarrow> string \<Rightarrow> string list list" where
  "links_to_parent root path dir =
     (case followed_loop root [] (butlast (resolveParts path dir)) ([], root) True 0 of
        None \<Rightarrow> []
      | Some (links, parent) \<Rightarrow> links)"

definition parent_kind :: "FSNode \<Rightarrow> string \<Rightarrow> string \<Rightarrow> FSNodeType option" where
  "parent_kind root path dir = map_option (\<lambda>(loc, parent). ntype parent) (parent_of root path dir)"

definition parent_is_directory :: "FSNode \<Rightarrow> string \<Rightarrow> string \<Rightarrow> bool" where
  "parent_is_directory root path dir =
     (case parent_of root path dir of
        None \<Rightarrow> False
      | Some (loc, parent) \<Rightarrow> ntype parent = Directory \<and> children parent \<noteq> None)"

definition replaces_followed_link :: "FSNode \<Rightarrow> string \<Rightarrow> string \<Rightarrow> bool" where
  "replaces_followed_link root path dir =
     (case entry_position root path dir of
        None \<Rightarrow> False
      | Some pos \<Rightarrow> pos \<in> set (links_to_parent root path dir))"

definition with_file :: "FSNode \<Rightarrow> string \<Rightarrow> string \<Rightarrow> string \<Rightarrow> int \<Rightarrow> FSNode" where
  "with_file root path text dir now =
     (case parent_of root path dir of
        None \<Rightarrow> root
      | Some (loc, parent) \<Rightarrow>
          update_at loc
            (children_set (Some (file_name path dir)) (new_file (Some (file_name path dir)) text now))
            root)"

definition without_entry :: "FSNode \<Rightarrow> string \<Rightarrow> string \<Rightarrow> FSNode" where
  "without_entry root path dir =
     (case parent_of root path dir of
        None \<Rightarrow> root
      | Some (loc, parent) \<Rightarrow> update_at loc (children_delete (file_name path dir)) root)"

definition normal_cwd :: "string \<Rightarrow> bool" where
  "normal_cwd dir = clean_parts (filter_Boolean (split_on CHR ''/'' dir))"

definition parent_path :: "string \<Rightarrow> string" where
  "parent_path p = CHR ''/'' # join ''/'' (butlast (resolveParts p ''/''))"

text \<open>More concrete inputs.\<close>

definition link_to_a :: FSNode where
  "link_to_a = FSNode (Some ''link'') Symlink None None (Some ''/a'') None None None"

definition dir_a :: FSNode where
  "dir_a = FSNode (Some ''a'') Directory None (Some [''link'' \<mapsto> link_to_a]) None None None None"

definition root_with_link :: FSNode where
  "root_with_link =
     FSNode (Some ''/'') Directory None (Some [''a'' \<mapsto> dir_a]) None None None None"

text \<open>A directory node without \<^verbatim>\<open>children\<close> map, as \<^verbatim>\<open>_jsonToNode\<close> builds it from a
  snapshot of a directory that has no \<^verbatim>\<open>children\<close> property.\<close>

definition bare_directory :: FSNode where
  "bare_directory = jsonToNode 0 (FSNodeJSON (Some ''/'') Directory None None None None)"

text \<open>
  A root directory with one entry, the symlink \<^verbatim>\<open>l\<close> to the root itself, and the path
  \<^verbatim>\<open>/l/l/.../l\<close> of 25 parts.
\<close>

definition ring_link :: FSNode where
  "ring_link = FSNode (Some ''l'') Symlink None None (Some ''/'') None None None"

definition ring_root :: FSNode where
  "ring_root = FSNode (Some ''/'') Directory None (Some [''l'' \<mapsto> ring_link]) None
     (Some ''drwxr-xr-x'') None None"

definition ring_path :: string where
  "ring_path = CHR ''/'' # join ''/'' (replicate 25 ''l'')"

text \<open>
  A root directory with a chain of \<open>n\<close> symlinks: \<^verbatim>\<open>0\<close> points to \<^verbatim>\<open>/1\<close>, \<^verbatim>\<open>1\<close> to \<^verbatim>\<open>/2\<close>
  and so on, and the entry \<open>n\<close> is a file. Resolving \<^verbatim>\<open>/0\<close> nests \<open>n\<close> resolutions of symlink
  targets.
\<close>

definition chain_link :: "nat \<Rightarrow> FSNode" where
  "chain_link i =
     FSNode (Some (show_nat i)) Symlink None None (Some (CHR ''/'' # show_nat (Suc i)))
       None None None"

definition chain_root :: "nat \<Rightarrow> FSNode" where
  "chain_root n =
     FSNode (Some ''/'') Directory None
       (Some (map_of (map (\<lambda>i. (show_nat i, chain_link i)) [0..<n] @ [(show_nat n, file_a)])))
       None (Some ''drwxr-xr-x'') None None"

definition link_l :: FSNode where
  "link_l = FSNode (Some ''l'') Symlink None None (Some ''/a'') None None None"

definition linked_root :: FSNode where
  "linked_root = FSNode (Some ''/'') Directory None
     (Some [''a'' \<mapsto> file_a, ''l'' \<mapsto> link_l]) None (Some ''drwxr-xr-x'') None None"

definition mv_link_cmd :: ParsedCommand where
  "mv_link_cmd = \<lparr>command = ''mv'', args = [''/l'', ''/nodir/b''], rawArgs = ''/l /nodir/b'',
                  flags = Map.empty, inputRedirect = None, outputRedirect = None\<rparr>"

definition mv_cmd :: ParsedCommand where
  "mv_cmd = \<lparr>command = ''mv'', args = [''/a'', ''/nodir/b''], rawArgs = ''/a /nodir/b'',
             flags = Map.empty, inputRedirect = None, outputRedirect = None\<rparr>"

section \<open>Path resolution is capped at 20 nested symlink hops\<close>

text \<open>The walk with its record is the walk.\<close>

lemma walk_loop_followed:
  "walk_loop root pre rest cur follow d = map_option snd (followed_loop root pre rest cur follow d)"
proof (induction root pre rest cur follow d rule: walk_loop.induct)
  case (1 root pre current followSymlinks depth)
  then show ?case by simp
next
  case (2 root pre part rest current followSymlinks depth)
  then show ?case
    by (auto split: option.splits prod.splits)
qed

lemma walk_loop_nested_hops:
  "walk_loop root pre rest current follow depth = Some result \<Longrightarrow> follow \<Longrightarrow> depth \<le> 20 \<Longrightarrow>
   \<exists>k. depth + k \<le> 20 \<and> nested_hops root pre rest current k result"
proof (induction root pre rest current follow depth arbitrary: result rule: walk_loop.induct)
  case (1 root pre current follow depth)
  then show ?case by (auto intro: nested_done intro!: exI[of _ 0])
next
  case (2 root pre part rest current follow depth)
  note follow = \<open>follow\<close>
  from "2.prems" have dir: "ntype (snd current) = Directory"
    by (auto split: if_splits)
  from "2.prems" dir obtain m where m: "children (snd current) = Some m"
    by (auto split: option.splits)
  from "2.prems" dir m obtain child where child: "m part = Some child"
    by (auto split: option.splits)
  show ?case
  proof (cases "ntype child = Symlink \<and> truthy (target child)")
    case False
    with "2.prems" dir m child
    have "walk_loop root (pre @ [part]) rest (fst current @ [part], child) follow depth = Some result"
      by auto
    note w = this
    have c1: "\<not> ntype (snd current) \<noteq> Directory" using dir by simp
    have c4: "\<not> (ntype child = Symlink \<and> follow \<and> truthy (target child))"
      using False by simp
    from "2.IH"(3)[OF c1 m child c4 w follow "2.prems"(3)]
    obtain k where "depth + k \<le> 20" "nested_hops root (pre @ [part]) rest (fst current @ [part], child) k result"
      by auto
    with dir m child False show ?thesis by (auto intro: nested_child)
  next
    case True
    then obtain t where t: "target child = Some t" "t \<noteq> []"
      by (auto simp: truthy_def split: option.splits)
    let ?tp = "resolveParts t (CHR ''/'' # join ''/'' pre)"
    from "2.prems" dir m child True t have d: "\<not> depth + 1 > 20"
      by (auto split: if_splits)
    from "2.prems" dir m child True t d obtain tn where
      tn: "walk_loop root [] ?tp ([], root) True (depth + 1) = Some tn"
      and rest: "walk_loop root (pre @ [part]) rest tn follow depth = Some result"
      by (auto split: option.splits)
    have c1: "\<not> ntype (snd current) \<noteq> Directory" using dir by simp
    have c4: "ntype child = Symlink \<and> follow \<and> truthy (target child)"
      using True follow by simp
    have c5: "(if 20 < depth + 1 then None
               else walk_loop root []
                      (resolveParts (case target child of None \<Rightarrow> [] | Some t \<Rightarrow> t)
                         (CHR ''/'' # join ''/'' pre))
                      ([], root) True (depth + 1)) = Some tn"
      using d tn t by simp
    have d': "depth + 1 \<le> 20" using d by simp
    from "2.IH"(1)[OF c1 m child c4 d _ _ d'] tn t
    obtain j where j: "depth + 1 + j \<le> 20" "nested_hops root [] ?tp ([], root) j tn"
      by auto
    from "2.IH"(2)[OF c1 m child c4 c5 rest follow "2.prems"(3)]
    obtain k where k: "depth + k \<le> 20" "nested_hops root (pre @ [part]) rest tn k result"
      by auto
    have "nested_hops root pre (part # rest) current (max (Suc j) k) result"
      using dir m child True t j k by (auto intro: nested_link)
    moreover have "depth + max (Suc j) k \<le> 20" using j k by auto
    ultimately show ?thesis by blast
  qed
qed

lemma nested_hops_walk_loop:
  "nested_hops root pre rest current k result \<Longrightarrow> depth + k \<le> 20 \<Longrightarrow>
   walk_loop root pre rest current True depth = Some result"
proof (induction arbitrary: depth rule: nested_hops.induct)
  case (nested_done root pre current)
  then show ?case by simp
next
  case (nested_child current m part child root pre rest k result)
  then show ?case by auto
next
  case (nested_link current m part child t root pre j targetNode rest k result)
  from nested_link.prems have "depth + 1 + j \<le> 20" "depth + k \<le> 20" by auto
  with nested_link.IH have
    "walk_loop root [] (resolveParts t (CHR ''/'' # join ''/'' pre)) ([], root) True (depth + 1) = Some targetNode"
    "walk_loop root (pre @ [part]) rest targetNode True depth = Some result"
    by auto
  moreover from nested_link.prems have "\<not> depth + 1 > 20" by auto
  ultimately show ?case using nested_link.hyps by (auto simp: truthy_def)
qed


text \<open>
  A symlink in the root whose target leads back through the symlink itself: no path that
  starts with it resolves, at any depth.
\<close>

lemma reentrant_link_walk:
  assumes "ntype root = Directory" "children root = Some m" "m n = Some c"
    and "ntype c = Symlink" "target c = Some t" "t \<noteq> []"
    and "resolveParts t ''/'' = n # others"
  shows "walk_loop root [] (n # parts) ([], root) True d = None"
proof (induction "21 - d" arbitrary: d parts)
  case 0
  then have "d + 1 > 20" by simp
  with assms show ?case by (simp add: truthy_def)
next
  case (Suc k)
  show ?case
  proof (cases "d + 1 > 20")
    case True
    with assms show ?thesis by (simp add: truthy_def)
  next
    case False
    from Suc.hyps(2) have "k = 21 - (d + 1)" by simp
    from Suc.hyps(1)[OF this, of others]
    have "walk_loop root [] (n # others) ([], root) True (d + 1) = None" .
    with assms False show ?thesis by (simp add: truthy_def)
  qed
qed

lemma reentrant_link_unresolvable:
  assumes "ntype root = Directory" "children root = Some m" "m n = Some c"
    and "ntype c = Symlink" "target c = Some t" "t \<noteq> []"
    and "resolveParts t ''/'' = n # others"
    and "resolveParts path dir = n # parts"
  shows "resolve root path dir = None"
  using reentrant_link_walk[OF assms(1-7), of parts 0] assms(8)
  by (simp add: resolve_def walk_def)

lemma resolveParts_slash_loop: "resolveParts ''/loop'' ''/'' = [''loop'']"
  by (simp add: resolveParts_def startsWith_def filter_Boolean_def)

lemma resolveParts_slash_a: "resolveParts ''/a'' ''/'' = [''a'']"
  by (simp add: resolveParts_def startsWith_def filter_Boolean_def)

lemma resolve_small_root_a: "resolve small_root ''/a'' ''/'' = Some ([''a''], file_a)"
  by (simp add: resolve_def walk_def resolveParts_slash_a small_root_def file_a_def)

text \<open>A symlink whose target is its own path: the walk gives up at depth 21.\<close>

lemma resolve_small_root_loop: "resolve small_root ''/loop'' ''/'' = None"
  by (simp add: resolve_def walk_def resolveParts_slash_loop small_root_def loop_link_def truthy_def)

text \<open>
  The walk along \<^verbatim>\<open>/l/l/.../l\<close> in \<open>ring_root\<close> follows the symlink \<^verbatim>\<open>l\<close> once for
  every part and is back at the root each time.
\<close>

lemma followed_loop_ring:
  "followed_loop ring_root pre (replicate n ''l'') ([], ring_root) True 0
     = Some (replicate n [''l''], ([], ring_root))"
proof (induction n arbitrary: pre)
  case 0
  then show ?case by simp
next
  case (Suc n)
  have t: "resolveParts ''/'' (CHR ''/'' # join ''/'' pre) = []"
    by (simp add: resolveParts_def startsWith_def filter_Boolean_def)
  have r: "ntype ring_root = Directory" "children ring_root = Some [''l'' \<mapsto> ring_link]"
    "ntype ring_link = Symlink" "target ring_link = Some ''/''"
    by (simp_all add: ring_root_def ring_link_def)
  show ?case
    using Suc[of "pre @ [''l'']"] by (simp add: r t truthy_def)
qed

lemma resolveParts_ring_path: "resolveParts ring_path ''/'' = replicate 25 ''l''"
  by (simp add: ring_path_def resolveParts_def startsWith_def filter_Boolean_def
      eval_nat_numeral)

text \<open>
  C7, as stated, fails: in \<open>ring_root\<close> the resolution of the path \<^verbatim>\<open>/l/l/.../l\<close> of 25
  parts follows 25 symlinks, more than 20 hops, and returns the root, not \<^verbatim>\<open>null\<close>.
\<close>

theorem resolve_follows_25_symlinks:
  "symlink_hops ring_root ring_path ''/'' = Some 25 \<and>
   resolve ring_root ring_path ''/'' = Some ([], ring_root)"
  by (simp add: symlink_hops_def symlinks_followed_def resolve_def walk_def walk_loop_followed
      resolveParts_ring_path followed_loop_ring)

text \<open>
  C7, amended. \<^verbatim>\<open>resolve\<close> is a total function (\<open>walk_loop\<close> is defined with its
  termination proof: the depth grows towards 21 in every nested call and the parts shrink
  inside a call). What the cap of 20 bounds is the nesting of symlink resolutions, not the
  number of symlinks followed: \<^verbatim>\<open>resolve\<close> returns a node exactly when the path resolves with
  symlink targets nested at most 20 deep. A path that needs deeper nesting, and every cycle of
  symlinks, resolves to \<open>None\<close>; every resolution starts at depth 0, so the cap applies to
  all of them.
\<close>

theorem resolve_within_20_hops:
  "resolve root path dir = Some result \<longleftrightarrow>
   (\<exists>k\<le>20. nested_hops root [] (resolveParts path dir) ([], root) k result)"
proof
  assume "resolve root path dir = Some result"
  then have "walk_loop root [] (resolveParts path dir) ([], root) True 0 = Some result"
    by (simp add: resolve_def walk_def)
  from walk_loop_nested_hops[OF this] show "\<exists>k\<le>20. nested_hops root [] (resolveParts path dir) ([], root) k result"
    by auto
next
  assume "\<exists>k\<le>20. nested_hops root [] (resolveParts path dir) ([], root) k result"
  then obtain k where "k \<le> 20" "nested_hops root [] (resolveParts path dir) ([], root) k result"
    by auto
  then have "walk_loop root [] (resolveParts path dir) ([], root) True 0 = Some result"
    by (intro nested_hops_walk_loop) auto
  then show "resolve root path dir = Some result"
    by (simp add: resolve_def walk_def)
qed

text \<open>
  The cap at work. A chain of 20 symlinks resolves, following 20 symlinks nested 20 deep; a
  chain of 21 does not.
\<close>

lemma resolve_chain_20:
  "map_option fst (resolve (chain_root 20) ''/0'' ''/'') = Some [''20'']"
  "symlink_hops (chain_root 20) ''/0'' ''/'' = Some 20"
  by code_simp+

lemma resolve_chain_21: "resolve (chain_root 21) ''/0'' ''/'' = None"
  by code_simp

theorem resolve_within_20_hops_witness:
  "(\<exists>k\<le>20. nested_hops small_root [] (resolveParts ''/a'' ''/'') ([], small_root) k ([''a''], file_a)) \<and>
   (\<forall>result. \<not> (\<exists>k\<le>20. nested_hops small_root [] (resolveParts ''/loop'' ''/'') ([], small_root) k result)) \<and>
   (\<exists>result. \<exists>k\<le>20. nested_hops (chain_root 20) [] (resolveParts ''/0'' ''/'') ([], chain_root 20) k result) \<and>
   (\<forall>result. \<not> (\<exists>k\<le>20. nested_hops (chain_root 21) [] (resolveParts ''/0'' ''/'') ([], chain_root 21) k result))"
proof -
  from resolve_chain_20(1) obtain r where r: "resolve (chain_root 20) ''/0'' ''/'' = Some r"
    by auto
  have a: "\<exists>k\<le>20. nested_hops small_root [] (resolveParts ''/a'' ''/'') ([], small_root) k
             ([''a''], file_a)"
    using resolve_within_20_hops[of small_root "''/a''" "''/''" "([''a''], file_a)"]
      resolve_small_root_a by simp
  have b: "\<not> (\<exists>k\<le>20. nested_hops small_root [] (resolveParts ''/loop'' ''/'') ([], small_root) k
                result)" for result
    using resolve_within_20_hops[of small_root "''/loop''" "''/''" result]
      resolve_small_root_loop by simp
  have c: "\<exists>k\<le>20. nested_hops (chain_root 20) [] (resolveParts ''/0'' ''/'') ([], chain_root 20) k r"
    using resolve_within_20_hops[of "chain_root 20" "''/0''" "''/''" r] r by simp
  have d: "\<not> (\<exists>k\<le>20. nested_hops (chain_root 21) [] (resolveParts ''/0'' ''/'') ([], chain_root 21)
                k result)" for result
    using resolve_within_20_hops[of "chain_root 21" "''/0''" "''/''" result]
      resolve_chain_21 by simp
  from a b c d show ?thesis by blast
qed

section \<open>Snapshot round trip\<close>

lemma truthy_keep: "s \<noteq> Some [] \<Longrightarrow> (if truthy s then s else None) = s"
  by (cases s) (auto simp: truthy_def)

lemma jsonToNode_nodeToJSON:
  "snapshot_safe T \<Longrightarrow> jsonToNode now (nodeToJSON T) = set_modified now T"
proof (induction T)
  case (FSNode n t c ch tg p md ue)
  have ue: "ue = None" using FSNode.prems by simp
  have "map_option (\<lambda>m. map_option (jsonToNode now) \<circ> m)
          (map_option (\<lambda>props. assigned_properties props None)
             (map_option (\<lambda>m. map_option nodeToJSON \<circ> m) ch))
        = map_option (\<lambda>m. map_option (set_modified now) \<circ> m) ch"
  proof (cases ch)
    case None
    then show ?thesis by simp
  next
    case (Some m)
    have proto: "m ''__proto__'' = None" using FSNode.prems Some by simp
    have "map_option (jsonToNode now) (map_option nodeToJSON (m k))
          = map_option (set_modified now) (m k)" for k
    proof (cases "m k")
      case None
      then show ?thesis by simp
    next
      case (Some child)
      from FSNode.prems \<open>ch = Some m\<close> Some have "snapshot_safe child"
        by (auto dest: spec[of _ k])
      moreover have "Some child \<in> range m" using Some by (metis rangeI)
      ultimately show ?thesis using FSNode.IH(1)[of m "m k" child] \<open>ch = Some m\<close> Some
        by simp
    qed
    then show ?thesis using Some proto by (auto simp: fun_eq_iff assigned_properties_def)
  qed
  then show ?case using FSNode.prems ue by (simp add: truthy_keep)
qed

lemma snapshot_safe_small_root: "snapshot_safe small_root"
  by (simp add: small_root_def file_a_def loop_link_def)

text \<open>A directory entry named \<^verbatim>\<open>__proto__\<close> is lost in the round trip.\<close>

lemma snapshot_drops_proto:
  "children (fromJSON 0 (toJSON root_with_proto)) = Some Map.empty"
  by (simp add: fromJSON_def toJSON_def root_with_proto_def truthy_def fun_eq_iff
      assigned_properties_def)

text \<open>
  C5 (a defect of the code). In the filesystem the constructor builds,
  \<^verbatim>\<open>writeFile('/__proto__', 'x')\<close> succeeds and the file can be read; after
  \<^verbatim>\<open>fromJSON(toJSON())\<close> the root has no entry at all and the file is gone.
  \<^verbatim>\<open>_nodeToJSON\<close> copies every child with \<^verbatim>\<open>json.children[name] = ...\<close>, and on the plain
  object \<^verbatim>\<open>json.children\<close> that assignment creates no property for the name \<^verbatim>\<open>__proto__\<close>.
\<close>

theorem snapshot_loses_proto_entry:
  "\<exists>T. writeFile empty_root ''/__proto__'' ''x'' ''/'' now = Inr (True, T) \<and>
       readFile T ''/__proto__'' ''/'' = Some ''x'' \<and>
       children (fromJSON later (toJSON T)) = Some Map.empty \<and>
       readFile (fromJSON later (toJSON T)) ''/__proto__'' ''/'' = None"
  by (simp add: writeFile_def resolvePath_def resolveParts_def startsWith_def filter_Boolean_def
      resolve_def walk_def empty_root_def children_set_def children_get_def set_children_def
      new_file_def readFile_def fromJSON_def toJSON_def truthy_def assigned_properties_def
      fun_eq_iff)

text \<open>
  Two more things the round trip does not keep. A \<^verbatim>\<open>target\<close> or \<^verbatim>\<open>permissions\<close> that is the
  empty string comes back absent, because \<^verbatim>\<open>_nodeToJSON\<close> copies these fields only when they
  are truthy. An entry under the key \<^verbatim>\<open>undefined\<close> comes back under the name \<^verbatim>\<open>undefined\<close>.
\<close>

lemma snapshot_drops_blank_permissions:
  "permissions (fromJSON 0 (toJSON blank_permissions_file)) \<noteq> permissions blank_permissions_file"
  by (simp add: fromJSON_def toJSON_def blank_permissions_file_def truthy_def)

lemma snapshot_renames_undefined_entry:
  "\<exists>T. writeFile empty_root ''/'' ''x'' ''/'' now = Inr (True, T) \<and>
       readFile T ''/undefined'' ''/'' = None \<and>
       readFile (fromJSON later (toJSON T)) ''/undefined'' ''/'' = Some ''x''"
  by (simp add: writeFile_def resolvePath_def resolveParts_def startsWith_def filter_Boolean_def
      resolve_def walk_def empty_root_def children_set_def children_get_def set_children_def
      set_undefined_entry_def new_file_def readFile_def fromJSON_def toJSON_def truthy_def
      assigned_properties_def)

text \<open>
  For every other tree the round trip is lossless: when no node has an empty-string
  \<^verbatim>\<open>target\<close> or \<^verbatim>\<open>permissions\<close> and no directory has an entry named \<^verbatim>\<open>__proto__\<close> or under
  the key \<^verbatim>\<open>undefined\<close>, it gives the tree back with every node's name, type, content,
  target, permissions and children map as they were; only the \<^verbatim>\<open>modified\<close> stamps are set
  anew.
\<close>

lemma snapshot_roundtrip:
  "snapshot_safe T \<Longrightarrow> fromJSON now (toJSON T) = set_modified now T"
  by (simp add: fromJSON_def toJSON_def jsonToNode_nodeToJSON)

lemma snapshot_roundtrip_small_root:
  "fromJSON 7 (toJSON small_root) = set_modified 7 small_root"
  using snapshot_roundtrip[of small_root 7] snapshot_safe_small_root by simp

section \<open>The parser and the executor on the scenarios of the specification\<close>

lemmas parse_eval = parse_def splitPipeline_def push_command_def trim_def is_space_def
  startsWith_def parseCommand_def tokenize_def short_flags_condition_def set_property_def

lemmas execute_eval = execute_def executePipeline_def operator_at_def executeCommand_def
  registry_get_def engine_registry_def handleEcho_def handleWc_def handleTrue_def
  handleFalse_def wc_getText_def flag_is_true_def flag_truthy_def truthy_def

lemmas fresh_context_eval = new_context_def initial_env_def ctx_resolvePath_def
  resolvePath_def resolveParts_def filter_Boolean_def startsWith_def readFile_def resolve_def
  walk_def empty_root_def

subsection \<open>Conditional short-circuit\<close>

lemma parse_short_circuit_line:
  "parse short_circuit_line =
     \<lparr>commands =
        [\<lparr>command = ''false'', args = [], rawArgs = [], flags = Map.empty,
          inputRedirect = None, outputRedirect = None\<rparr>,
         \<lparr>command = ''echo'', args = [''should-not-appear''], rawArgs = ''should-not-appear'',
          flags = Map.empty, inputRedirect = None, outputRedirect = None\<rparr>,
         \<lparr>command = ''true'', args = [], rawArgs = [], flags = Map.empty,
          inputRedirect = None, outputRedirect = None\<rparr>,
         \<lparr>command = ''echo'', args = [''yes''], rawArgs = ''yes'', flags = Map.empty,
          inputRedirect = None, outputRedirect = None\<rparr>],
      operators = [AndAnd, Semi, AndAnd]\<rparr>"
  by (simp add: short_circuit_line_def parse_eval)

lemma execute_short_circuit_line:
  "execute engine_registry short_circuit_line ctx now =
     (\<lparr>outputText = [], exitCode = 1\<rparr>, ctx\<lparr>ctxExitCode := 1\<rparr>)"
  by (simp add: parse_short_circuit_line execute_eval)

text \<open>
  C1, as stated, fails: the line does not produce \<^verbatim>\<open>yes\<close> with exit code 0.
\<close>

theorem short_circuit_counterexample:
  "fst (execute engine_registry short_circuit_line (new_context empty_root) 0)
     \<noteq> \<lparr>outputText = ''yes'' @ [CHR 0x0A], exitCode = 0\<rparr>"
  by (simp add: execute_short_circuit_line)

text \<open>
  C1, amended. In every context the line \<^verbatim>\<open>false && echo should-not-appear ; true && echo yes\<close>
  produces the empty output and exit code 1: the \<^verbatim>\<open>&&\<close> after the failing \<^verbatim>\<open>false\<close> leaves
  the loop of \<^verbatim>\<open>executePipeline\<close>, so neither the \<^verbatim>\<open>echo\<close> nor the commands after the
  \<^verbatim>\<open>;\<close> run, and the result is the one of \<^verbatim>\<open>false\<close>.
\<close>

theorem short_circuit_ends_pipeline:
  "execute engine_registry short_circuit_line ctx now =
     (\<lparr>outputText = [], exitCode = 1\<rparr>, ctx\<lparr>ctxExitCode := 1\<rparr>)"
  by (fact execute_short_circuit_line)

subsection \<open>Short flags\<close>

text \<open>The condition of the short-flag branch holds for no token.\<close>

lemma short_flags_condition_never: "\<not> short_flags_condition token"
  by (simp add: short_flags_condition_def)

text \<open>
  C2 (a defect of the code). For the command \<^verbatim>\<open>ls -abc\<close> the parser sets none of the
  flags \<^verbatim>\<open>a\<close>, \<^verbatim>\<open>b\<close>, \<^verbatim>\<open>c\<close> and appends the token \<^verbatim>\<open>-abc\<close> to \<^verbatim>\<open>args\<close>.
\<close>

theorem parseCommand_short_flags_unset:
  "flags (parseCommand ''ls -abc'') ''a'' = None \<and>
   flags (parseCommand ''ls -abc'') ''b'' = None \<and>
   flags (parseCommand ''ls -abc'') ''c'' = None \<and>
   args (parseCommand ''ls -abc'') = [''-abc'']"
  by (simp add: parse_eval)

subsection \<open>Quoted pipeline\<close>

lemma parse_quoted_pipeline_line:
  "parse quoted_pipeline_line =
     \<lparr>commands =
        [\<lparr>command = ''echo'', args = [''hello world''], rawArgs = ''hello world'',
          flags = Map.empty, inputRedirect = None, outputRedirect = None\<rparr>,
         \<lparr>command = ''wc'', args = [''-w''], rawArgs = ''-w'', flags = Map.empty,
          inputRedirect = None, outputRedirect = None\<rparr>],
      operators = [Pipe]\<rparr>"
  by (simp add: quoted_pipeline_line_def parse_eval)

text \<open>
  C3 (a defect of the code, the one of C2). On a fresh engine the line
  \<^verbatim>\<open>echo "hello world" | wc -w\<close> reports that the file \<^verbatim>\<open>-w\<close> does not exist and exits
  with 1: the token \<^verbatim>\<open>-w\<close> reaches \<^verbatim>\<open>wc\<close> as a file operand, not as a flag.
\<close>

theorem quoted_pipeline_wc_reads_flag_as_file:
  "fst (execute engine_registry quoted_pipeline_line (new_context empty_root) now) =
     \<lparr>outputText = ''wc: -w: No such file or directory'', exitCode = 1\<rparr>"
  by (simp add: parse_quoted_pipeline_line execute_eval fresh_context_eval)

text \<open>
  The handler itself counts the two words: with the flag spelt \<^verbatim>\<open>--w\<close>, which the parser
  does recognise, the same pipeline prints \<^verbatim>\<open>2\<close> and exits with 0.
\<close>

lemma parse_quoted_pipeline_long_flag_line:
  "parse quoted_pipeline_long_flag_line =
     \<lparr>commands =
        [\<lparr>command = ''echo'', args = [''hello world''], rawArgs = ''hello world'',
          flags = Map.empty, inputRedirect = None, outputRedirect = None\<rparr>,
         \<lparr>command = ''wc'', args = [], rawArgs = ''--w'', flags = [''w'' \<mapsto> FlagTrue],
          inputRedirect = None, outputRedirect = None\<rparr>],
      operators = [Pipe]\<rparr>"
  by (simp add: quoted_pipeline_long_flag_line_def parse_eval slice_def)

lemma words_hello_world: "length (filter_Boolean (split_ws ''hello world'')) = 2"
  by (simp add: filter_Boolean_def is_space_def)

lemma show_nat_2: "show_nat 2 = ''2''"
  by code_simp

lemma quoted_pipeline_with_long_flag:
  "fst (execute engine_registry quoted_pipeline_long_flag_line (new_context empty_root) now) =
     \<lparr>outputText = ''2'', exitCode = 0\<rparr>"
  by (simp add: parse_quoted_pipeline_long_flag_line execute_eval words_hello_world show_nat_2
      trim_def is_space_def new_context_def initial_env_def del: split_ws.simps)

subsection \<open>Vacant positions between operators\<close>

lemma ncmd_push_command: "ncmd (push_command results current) \<le> ncmd results + 1"
  by (simp add: push_command_def ncmd_def)

lemma nop_push_command: "nop (push_command results current) = nop results"
  by (simp add: push_command_def nop_def)

lemma push_operator_count:
  "ncmd results \<le> nop results \<Longrightarrow>
   ncmd (push_command results current @ [OperatorSeg v])
     \<le> nop (push_command results current @ [OperatorSeg v])"
  using ncmd_push_command[of results current] nop_push_command[of results current]
  by (simp add: ncmd_def nop_def)

lemma splitPipeline_loop_count:
  "ncmd results \<le> nop results \<Longrightarrow>
   ncmd (splitPipeline_loop results current sq dq esc input)
     \<le> nop (splitPipeline_loop results current sq dq esc input) + 1"
proof (induction results current sq dq esc input rule: splitPipeline_loop.induct)
  case (1 results current sq dq esc)
  then show ?case
    using ncmd_push_command[of results current] by (simp add: nop_push_command)
next
  case (2 results current sq dq esc c rest)
  then show ?case by (simp add: push_operator_count)
qed

lemma push_command_nonempty:
  "CommandSeg [] \<notin> set results \<Longrightarrow> CommandSeg [] \<notin> set (push_command results current)"
  by (simp add: push_command_def)

lemma splitPipeline_loop_nonempty:
  "CommandSeg [] \<notin> set results \<Longrightarrow>
   CommandSeg [] \<notin> set (splitPipeline_loop results current sq dq esc input)"
proof (induction results current sq dq esc input rule: splitPipeline_loop.induct)
  case (1 results current sq dq esc)
  then show ?case by (simp add: push_command_nonempty)
next
  case (2 results current sq dq esc c rest)
  then show ?case by (simp add: push_command_nonempty)
qed

lemma parse_loop_lengths:
  "length (commands (parse_loop segs p)) = length (commands p) + ncmd segs \<and>
   length (operators (parse_loop segs p)) = length (operators p) + nop segs"
  by (induction segs p rule: parse_loop.induct) (simp_all add: ncmd_def nop_def)

text \<open>
  What the splitter and the executor do about vacant positions. Pipeline splitting emits
  nothing for one: no command segment is empty, and a parsed pipeline has at most one more
  command than operators (for \<^verbatim>\<open>a ;; b\<close> the commands \<^verbatim>\<open>a\<close>, \<^verbatim>\<open>b\<close> and the operators
  \<^verbatim>\<open>;\<close>, \<^verbatim>\<open>;\<close>; for \<^verbatim>\<open>a &&\<close> one command and one operator). The executor turns a command
  whose name is empty into a no-op with empty output and exit code 0 that leaves the context
  as it is, but the splitter never hands it one.
\<close>

lemma vacant_positions_emit_no_command:
  "CommandSeg [] \<notin> set (splitPipeline input) \<and>
   length (commands (parse input)) \<le> length (operators (parse input)) + 1 \<and>
   map command (commands (parse ''a ;; b'')) = [''a'', ''b''] \<and>
   operators (parse ''a ;; b'') = [Semi, Semi] \<and>
   map command (commands (parse ''a &&'')) = [''a''] \<and>
   operators (parse ''a &&'') = [AndAnd] \<and>
   executeCommand reg (cmd\<lparr>command := []\<rparr>) ctx stdin now
     = (\<lparr>outputText = [], exitCode = 0\<rparr>, ctx)"
proof -
  have "CommandSeg [] \<notin> set (splitPipeline input)"
    using splitPipeline_loop_nonempty[of "[]" "[]" False False False input]
    by (simp add: splitPipeline_def)
  moreover have "length (commands (parse input)) \<le> length (operators (parse input)) + 1"
    using splitPipeline_loop_count[of "[]" "[]" False False False input]
      parse_loop_lengths[of "splitPipeline input" "\<lparr>commands = [], operators = []\<rparr>"]
    by (simp add: parse_def splitPipeline_def ncmd_def nop_def)
  moreover have "map command (commands (parse ''a ;; b'')) = [''a'', ''b'']"
    "operators (parse ''a ;; b'') = [Semi, Semi]"
    "map command (commands (parse ''a &&'')) = [''a'']"
    "operators (parse ''a &&'') = [AndAnd]"
    by (simp_all add: parse_eval)
  moreover have "executeCommand reg (cmd\<lparr>command := []\<rparr>) ctx stdin now
     = (\<lparr>outputText = [], exitCode = 0\<rparr>, ctx)"
    by (simp add: executeCommand_def)
  ultimately show ?thesis by blast
qed

lemma show_nat_2_again: "show_nat 2 = ''2''"
  by code_simp

lemma words_a_b: "length (filter_Boolean (split_ws ''a b'')) = 2"
  by (simp add: filter_Boolean_def is_space_def)

text \<open>
  C8 (a defect of the code). The executor reads the operator before command \<open>i\<close> at index
  \<open>i - 1\<close> of the operators, and the splitter pushes every operator but no command for a
  vacant position, so after a vacant position the operators are applied one place too early.
  For \<^verbatim>\<open>false ;; true || echo hi\<close> there are three commands and three operators, the
  \<^verbatim>\<open>echo\<close> runs under the second \<^verbatim>\<open>;\<close> and not under the \<^verbatim>\<open>||\<close>, and the line prints
  \<^verbatim>\<open>hi\<close>. For \<^verbatim>\<open>true ;; echo a b | wc --w\<close> the pipe is lost: \<^verbatim>\<open>wc\<close> runs without input and
  fails, where \<^verbatim>\<open>true ; echo a b | wc --w\<close> prints \<^verbatim>\<open>2\<close>.
\<close>

theorem vacant_position_shifts_operators:
  "map command (commands (parse shifted_operator_line)) = [''false'', ''true'', ''echo''] \<and>
   operators (parse shifted_operator_line) = [Semi, Semi, OrOr] \<and>
   fst (execute engine_registry shifted_operator_line ctx now)
     = \<lparr>outputText = ''hi'', exitCode = 0\<rparr> \<and>
   fst (execute engine_registry lost_pipe_line ctx now) = \<lparr>outputText = [], exitCode = 1\<rparr> \<and>
   fst (execute engine_registry kept_pipe_line ctx now) = \<lparr>outputText = ''2'', exitCode = 0\<rparr>"
proof -
  have p1: "parse shifted_operator_line =
     \<lparr>commands =
        [\<lparr>command = ''false'', args = [], rawArgs = [], flags = Map.empty,
          inputRedirect = None, outputRedirect = None\<rparr>,
         \<lparr>command = ''true'', args = [], rawArgs = [], flags = Map.empty,
          inputRedirect = None, outputRedirect = None\<rparr>,
         \<lparr>command = ''echo'', args = [''hi''], rawArgs = ''hi'', flags = Map.empty,
          inputRedirect = None, outputRedirect = None\<rparr>],
      operators = [Semi, Semi, OrOr]\<rparr>"
    by (simp add: shifted_operator_line_def parse_eval)
  have p2: "parse lost_pipe_line =
     \<lparr>commands =
        [\<lparr>command = ''true'', args = [], rawArgs = [], flags = Map.empty,
          inputRedirect = None, outputRedirect = None\<rparr>,
         \<lparr>command = ''echo'', args = [''a'', ''b''], rawArgs = ''a b'', flags = Map.empty,
          inputRedirect = None, outputRedirect = None\<rparr>,
         \<lparr>command = ''wc'', args = [], rawArgs = ''--w'', flags = [''w'' \<mapsto> FlagTrue],
          inputRedirect = None, outputRedirect = None\<rparr>],
      operators = [Semi, Semi, Pipe]\<rparr>"
    by (simp add: lost_pipe_line_def parse_eval slice_def)
  have p3: "parse kept_pipe_line =
     \<lparr>commands =
        [\<lparr>command = ''true'', args = [], rawArgs = [], flags = Map.empty,
          inputRedirect = None, outputRedirect = None\<rparr>,
         \<lparr>command = ''echo'', args = [''a'', ''b''], rawArgs = ''a b'', flags = Map.empty,
          inputRedirect = None, outputRedirect = None\<rparr>,
         \<lparr>command = ''wc'', args = [], rawArgs = ''--w'', flags = [''w'' \<mapsto> FlagTrue],
          inputRedirect = None, outputRedirect = None\<rparr>],
      operators = [Semi, Pipe]\<rparr>"
    by (simp add: kept_pipe_line_def parse_eval slice_def)
  have e1: "fst (execute engine_registry shifted_operator_line ctx now)
              = \<lparr>outputText = ''hi'', exitCode = 0\<rparr>"
    by (simp add: p1 execute_eval)
  have e2: "fst (execute engine_registry lost_pipe_line ctx now) = \<lparr>outputText = [], exitCode = 1\<rparr>"
    by (simp add: p2 execute_eval del: split_ws.simps)
  have e3: "fst (execute engine_registry kept_pipe_line ctx now) = \<lparr>outputText = ''2'', exitCode = 0\<rparr>"
    by (simp add: p3 execute_eval words_a_b show_nat_2_again trim_def is_space_def
        del: split_ws.simps)
  show ?thesis using e1 e2 e3 by (simp add: p1)
qed

section \<open>The cursor stays within the buffer\<close>

lemma js_slice_0: "0 \<le> c \<Longrightarrow> js_slice s 0 c = take (nat c) s"
  by (auto simp: js_slice_def js_index_def min_def)

lemma js_slice_from_nonneg: "0 \<le> c \<Longrightarrow> js_slice_from s c = drop (nat c) s"
  by (auto simp: js_slice_from_def js_index_def min_def)

lemma skip_spaces_back_bounds: "0 \<le> p \<Longrightarrow> 0 \<le> skip_spaces_back buf p \<and> skip_spaces_back buf p \<le> p"
proof (induction buf p rule: skip_spaces_back.induct)
  case (1 buf newPos)
  then show ?case by (subst skip_spaces_back.simps, subst (2) skip_spaces_back.simps) auto
qed

lemma skip_word_back_bounds: "0 \<le> p \<Longrightarrow> 0 \<le> skip_word_back buf p \<and> skip_word_back buf p \<le> p"
proof (induction buf p rule: skip_word_back.induct)
  case (1 buf newPos)
  then show ?case by (subst skip_word_back.simps, subst (2) skip_word_back.simps) auto
qed

lemma insert_ib_inv: "ib_inv ib \<Longrightarrow> ib_inv (snd (insert_ib char ib))"
  by (auto simp: ib_inv_def insert_ib_def Let_def js_slice_0 js_slice_from_nonneg)

lemma backspace_inv: "ib_inv ib \<Longrightarrow> ib_inv (snd (backspace ib))"
  by (auto simp: ib_inv_def backspace_def Let_def js_slice_0 js_slice_from_nonneg)

lemma delete_ib_inv: "ib_inv ib \<Longrightarrow> ib_inv (snd (delete_ib ib))"
  by (auto simp: ib_inv_def delete_ib_def Let_def js_slice_0 js_slice_from_nonneg)

lemma moveLeft_inv: "ib_inv ib \<Longrightarrow> ib_inv (snd (moveLeft ib))"
  by (auto simp: ib_inv_def moveLeft_def)

lemma moveRight_inv: "ib_inv ib \<Longrightarrow> ib_inv (snd (moveRight ib))"
  by (auto simp: ib_inv_def moveRight_def)

lemma moveToStart_inv: "ib_inv ib \<Longrightarrow> ib_inv (snd (moveToStart ib))"
  by (auto simp: ib_inv_def moveToStart_def)

lemma moveToEnd_inv: "ib_inv ib \<Longrightarrow> ib_inv (snd (moveToEnd ib))"
  by (auto simp: ib_inv_def moveToEnd_def)

lemma killToEnd_inv: "ib_inv ib \<Longrightarrow> ib_inv (snd (killToEnd ib))"
  by (auto simp: ib_inv_def killToEnd_def Let_def js_slice_0)

lemma killToStart_inv: "ib_inv ib \<Longrightarrow> ib_inv (snd (killToStart ib))"
  by (auto simp: ib_inv_def killToStart_def Let_def)

lemma deleteWordBack_inv:
  assumes "ib_inv ib"
  shows "ib_inv (snd (deleteWordBack ib))"
proof (cases "cursorPos ib = 0")
  case True
  with assms show ?thesis by (simp add: deleteWordBack_def)
next
  case False
  let ?np = "skip_word_back (buffer ib) (skip_spaces_back (buffer ib) (cursorPos ib - 1))"
  from assms False have c: "0 \<le> cursorPos ib - 1" by (auto simp: ib_inv_def)
  from skip_spaces_back_bounds[OF c, of "buffer ib"]
  have s: "0 \<le> skip_spaces_back (buffer ib) (cursorPos ib - 1)"
    "skip_spaces_back (buffer ib) (cursorPos ib - 1) \<le> cursorPos ib - 1" by auto
  from skip_word_back_bounds[OF s(1), of "buffer ib"] s(2)
  have np: "0 \<le> ?np" "?np \<le> cursorPos ib - 1" by auto
  with assms False show ?thesis
    by (auto simp: ib_inv_def deleteWordBack_def Let_def js_slice_0 js_slice_from_nonneg)
qed

lemma replaceLine_inv:
  "historyIndex ib = - 1 \<or> (0 \<le> historyIndex ib \<and> historyIndex ib < int (length (history ib)))
   \<Longrightarrow> ib_inv (snd (replaceLine line ib))"
  by (auto simp: ib_inv_def replaceLine_def Let_def)

lemma historyUp_inv:
  "ib_inv ib \<Longrightarrow> \<exists>echo ib1. historyUp ib = Inr (echo, ib1) \<and> ib_inv ib1"
  by (auto simp: historyUp_def replaceLine_history_def history_at_def ib_inv_def replaceLine_def Let_def)

lemma historyDown_inv:
  "ib_inv ib \<Longrightarrow> \<exists>echo ib1. historyDown ib = Inr (echo, ib1) \<and> ib_inv ib1"
  by (auto simp: historyDown_def replaceLine_history_def history_at_def ib_inv_def replaceLine_def Let_def)

lemma tabComplete_inv: "ib_inv ib \<Longrightarrow> ib_inv (snd (tabComplete cb ib))"
  by (auto simp: tabComplete_def Let_def insert_ib_inv split: option.splits)

lemma submit_inv: "ib_inv (snd (submit ib))"
  by (simp add: submit_def ib_inv_def Let_def)

lemma clear_ib_inv: "ib_inv (clear_ib ib)"
  by (simp add: clear_ib_def ib_inv_def)

lemma insertText_loop_inv: "ib_inv ib \<Longrightarrow> ib_inv (snd (insertText_loop out str ib))"
proof (induction out str ib rule: insertText_loop.induct)
  case (1 out ib)
  then show ?case by simp
next
  case (2 out c cs ib)
  then show ?case
    using insert_ib_inv[of ib "[c]"] by (auto split: prod.splits)
qed

lemma Inr_inv: "ib_inv (snd p) \<Longrightarrow> \<exists>echo ib1. Inr p = (Inr (echo, ib1) :: exn + (string \<times> InputBuffer)) \<and> ib_inv ib1"
  by (cases p) simp

lemma apply_op_inv:
  assumes "ib_inv ib"
  shows "\<exists>echo ib1. apply_op op ib = Inr (echo, ib1) \<and> ib_inv ib1"
proof (cases op)
  case (Insert x)
  then show ?thesis using Inr_inv[OF insert_ib_inv[OF assms, of x]] by simp
next
  case Backspace
  then show ?thesis using Inr_inv[OF backspace_inv[OF assms]] by simp
next
  case Delete
  then show ?thesis using Inr_inv[OF delete_ib_inv[OF assms]] by simp
next
  case MoveLeft
  then show ?thesis using Inr_inv[OF moveLeft_inv[OF assms]] by simp
next
  case MoveRight
  then show ?thesis using Inr_inv[OF moveRight_inv[OF assms]] by simp
next
  case MoveToStart
  then show ?thesis using Inr_inv[OF moveToStart_inv[OF assms]] by simp
next
  case MoveToEnd
  then show ?thesis using Inr_inv[OF moveToEnd_inv[OF assms]] by simp
next
  case KillToEnd
  then show ?thesis using Inr_inv[OF killToEnd_inv[OF assms]] by simp
next
  case KillToStart
  then show ?thesis using Inr_inv[OF killToStart_inv[OF assms]] by simp
next
  case DeleteWordBack
  then show ?thesis using Inr_inv[OF deleteWordBack_inv[OF assms]] by simp
next
  case HistoryUp
  then show ?thesis using historyUp_inv[OF assms] by simp
next
  case HistoryDown
  then show ?thesis using historyDown_inv[OF assms] by simp
next
  case (TabComplete cb)
  then show ?thesis using Inr_inv[OF tabComplete_inv[OF assms, of cb]] by simp
next
  case (InsertText str)
  then show ?thesis
    using Inr_inv[OF insertText_loop_inv[OF assms, of "[]" str]] by (simp add: insertText_def)
next
  case Submit
  then show ?thesis using Inr_inv[OF submit_inv[of ib]] by simp
next
  case Clear
  then show ?thesis using clear_ib_inv[of ib] by simp
qed

lemma run_ops_inv:
  "ib_inv ib \<Longrightarrow> \<exists>ib1. run_ops ops ib = Inr ib1 \<and> ib_inv ib1"
proof (induction ops arbitrary: ib)
  case Nil
  then show ?case by simp
next
  case (Cons op ops)
  from apply_op_inv[OF Cons.prems, of op] obtain echo ib1
    where "apply_op op ib = Inr (echo, ib1)" "ib_inv ib1" by blast
  with Cons.IH[of ib1] show ?case by simp
qed

lemma new_inv: "ib_inv new_InputBuffer"
  by (simp add: ib_inv_def new_InputBuffer_def)

text \<open>
  C6. After any finite sequence of editor operations from the initial state (insert,
  backspace, delete, cursor moves, home and end, the kills, delete-word-back, history up and
  down, tab completion with any callback, paste insert, submit, clear), no operation has
  thrown and the cursor satisfies \<open>0 \<le> cursor \<le> |buffer|\<close>.
\<close>

theorem cursor_within_buffer:
  "\<exists>ib. run_ops ops new_InputBuffer = Inr ib \<and>
        0 \<le> cursorPos ib \<and> cursorPos ib \<le> int (length (buffer ib))"
  using run_ops_inv[OF new_inv, of ops] by (auto simp: ib_inv_def)

theorem cursor_within_buffer_witness:
  "\<exists>ib. run_ops [Insert ''ls'', MoveLeft, DeleteWordBack, Submit, HistoryUp] new_InputBuffer = Inr ib \<and>
        0 \<le> cursorPos ib \<and> cursorPos ib \<le> int (length (buffer ib))"
  using cursor_within_buffer[of "[Insert ''ls'', MoveLeft, DeleteWordBack, Submit, HistoryUp]"]
  by simp

section \<open>Burst detection\<close>

lemma burst_loop_all_rapid:
  "i < n \<Longrightarrow> burst_loop (map (key_time t0) [0..<n]) i c s = (c + i, if i = 0 then s else 0)"
proof (induction i arbitrary: c s)
  case 0
  then show ?case by simp
next
  case (Suc j)
  then show ?case by (simp add: key_time_def BURST_THRESHOLD_def)
qed

lemma addKeystroke_None:
  "filter (\<lambda>t. t > timestamp - 5000) (window @ [timestamp]) = ts \<Longrightarrow> length ts < 30 \<Longrightarrow>
   addKeystroke timestamp window = (None, ts)"
  by (simp add: addKeystroke_def Let_def BURST_MIN_CHARS_def del: filter_append)

lemma addKeystroke_Some:
  "filter (\<lambda>t. t > timestamp - 5000) (window @ [timestamp]) = ts \<Longrightarrow> \<not> length ts < 30 \<Longrightarrow>
   burst_loop ts (length ts - 1) 1 (length ts - 1) = (bc, bs) \<Longrightarrow> 30 \<le> bc \<Longrightarrow>
   addKeystroke timestamp window = (Some (bc, timestamp - ts ! bs), [])"
  by (simp add: addKeystroke_def Let_def BURST_MIN_CHARS_def del: filter_append)

lemma window_snoc:
  assumes "m \<le> n" "n < 250"
  shows "filter (\<lambda>t. t > key_time t0 n - 5000) (map (key_time t0) [m..<n] @ [key_time t0 n])
         = map (key_time t0) [m..<Suc n]"
proof -
  have "map (key_time t0) [m..<n] @ [key_time t0 n] = map (key_time t0) [m..<Suc n]"
    using assms by simp
  moreover have "filter (\<lambda>t. t > key_time t0 n - 5000) (map (key_time t0) [m..<Suc n])
                 = map (key_time t0) [m..<Suc n]"
    using assms by (intro filter_True) (auto simp: key_time_def)
  ultimately show ?thesis by simp
qed

lemma addKeystroke_below:
  assumes "Suc n - m < 30" "m \<le> n" "n < 250"
  shows "addKeystroke (key_time t0 n) (map (key_time t0) [m..<n]) = (None, map (key_time t0) [m..<Suc n])"
  using addKeystroke_None[OF window_snoc[OF assms(2,3), of t0]] assms(1)
  by (simp del: upt_Suc)

lemma addKeystroke_30:
  "addKeystroke (key_time t0 29) (map (key_time t0) [0..<29]) = (Some (30, 580), [])"
proof -
  have w: "filter (\<lambda>t. t > key_time t0 29 - 5000) (map (key_time t0) [0..<29] @ [key_time t0 29])
         = map (key_time t0) [0..<30]"
    using window_snoc[of 0 29 t0] by simp
  have b: "burst_loop (map (key_time t0) [0..<30]) (length (map (key_time t0) [0..<30]) - 1) 1
             (length (map (key_time t0) [0..<30]) - 1) = (30, 0)"
    using burst_loop_all_rapid[of 29 30 t0 1 29] by simp
  have "addKeystroke (key_time t0 29) (map (key_time t0) [0..<29])
        = (Some (30, key_time t0 29 - map (key_time t0) [0..<30] ! 0), [])"
    by (rule addKeystroke_Some[OF w _ b]) simp_all
  moreover have "map (key_time t0) [0..<30] ! 0 = key_time t0 0"
    by (subst nth_map) simp_all
  ultimately show ?thesis by (simp add: key_time_def)
qed

lemma record_keys_below_30:
  "n < 30 \<Longrightarrow> record_keys n key km t0 20 later new_KeystrokeRecorder =
     \<lparr>events = map (key_event key km t0) [0..<n], timestamps = map (key_time t0) [0..<n]\<rparr>"
proof (induction n)
  case 0
  then show ?case by (simp add: new_KeystrokeRecorder_def)
next
  case (Suc n)
  then have IH: "record_keys n key km t0 20 later new_KeystrokeRecorder =
     \<lparr>events = map (key_event key km t0) [0..<n], timestamps = map (key_time t0) [0..<n]\<rparr>"
    by simp
  have "addKeystroke (key_time t0 n) (map (key_time t0) [0..<n]) = (None, map (key_time t0) [0..<Suc n])"
    using Suc.prems by (intro addKeystroke_below) auto
  then show ?case
    by (simp add: IH recordKey_def key_time_def[symmetric] key_event_def)
qed

lemma show_nat_30: "show_nat 30 = ''30''"
  by code_simp

lemma show_int_580: "show_int 580 = ''580''"
  by code_simp

lemma record_keys_30:
  "record_keys 30 key km t0 20 later new_KeystrokeRecorder =
     \<lparr>events = map (key_event key km t0) [0..<30] @ [burst_paste (later 29)], timestamps = []\<rparr>"
proof -
  have "record_keys 30 key km t0 20 later new_KeystrokeRecorder
        = recordKey (key 29) (km 29) (key_time t0 29) (later 29)
            (record_keys 29 key km t0 20 later new_KeystrokeRecorder)"
    using record_keys.simps(2)[of 29 key km t0 20 later new_KeystrokeRecorder]
    by (simp add: key_time_def)
  also have "\<dots> = \<lparr>events = map (key_event key km t0) [0..<29] @ [key_event key km t0 29, burst_paste (later 29)], timestamps = []\<rparr>"
    by (simp add: record_keys_below_30 recordKey_def addKeystroke_30 show_nat_30 show_int_580
        burst_paste_def key_event_def)
  also have "map (key_event key km t0) [0..<29] @ [key_event key km t0 29, burst_paste (later 29)]
     = map (key_event key km t0) [0..<30] @ [burst_paste (later 29)]"
  proof -
    have "[0..<30] = [0..<29] @ [29]" using upt_Suc_append[of 0 29] by simp
    then show ?thesis by simp
  qed
  finally show ?thesis .
qed

lemma record_keys_after_30:
  assumes "30 \<le> n" "n \<le> 59"
  shows "record_keys n key km t0 20 later new_KeystrokeRecorder =
     \<lparr>events = map (key_event key km t0) [0..<30] @ [burst_paste (later 29)]
                @ map (key_event key km t0) [30..<n],
      timestamps = map (key_time t0) [30..<n]\<rparr>"
  using assms
proof (induction n rule: nat_induct_at_least)
  case base
  then show ?case by (simp add: record_keys_30)
next
  case (Suc n)
  then have IH: "record_keys n key km t0 20 later new_KeystrokeRecorder =
     \<lparr>events = map (key_event key km t0) [0..<30] @ [burst_paste (later 29)]
                @ map (key_event key km t0) [30..<n],
      timestamps = map (key_time t0) [30..<n]\<rparr>"
    by simp
  have a: "addKeystroke (key_time t0 n) (map (key_time t0) [30..<n])
           = (None, map (key_time t0) [30..<Suc n])"
    using Suc by (intro addKeystroke_below) auto
  have k: "KeyEvent (key n) (key_time t0 n) (km n) = key_event key km t0 n"
    by (simp add: key_event_def)
  have u: "[30..<Suc n] = [30..<n] @ [n]" using Suc by simp
  have "record_keys (Suc n) key km t0 20 later new_KeystrokeRecorder
        = recordKey (key n) (km n) (key_time t0 n) (later n)
            (record_keys n key km t0 20 later new_KeystrokeRecorder)"
    by (simp add: key_time_def)
  then show ?case
    by (simp add: IH recordKey_def a k u del: record_keys.simps upt_Suc)
qed

lemma is_paste_key_event: "filter is_paste (map (key_event key km t0) xs) = []"
  by (induction xs) (simp_all add: key_event_def)

lemma filter_is_paste_35:
  "filter is_paste (map (key_event key km t0) xs @ [burst_paste t] @ map (key_event key km t0) ys)
   = [burst_paste t]"
  by (simp add: is_paste_key_event) (simp add: burst_paste_def)

lemma matches: "matches_burst_pattern ''[burst detected: 30 chars in 580ms]''"
  by (simp add: burst_pattern_here_def startsWith_def is_digit_def)

text \<open>
  C9. 35 keystrokes with gaps of 20 ms, whatever the keys, the modifiers and the time of the
  first one: the event list holds exactly one paste event, detected by \<^verbatim>\<open>burst\<close>, with the
  content \<^verbatim>\<open>[burst detected: 30 chars in 580ms]\<close>, which matches the pattern; the window is
  empty after the 30th keystroke, and the five keystrokes that follow only refill it.
\<close>

theorem burst_of_35_keystrokes:
  "filter is_paste (events (record_keys 35 key km t0 20 later new_KeystrokeRecorder))
     = [PasteEvent ''[burst detected: 30 chars in 580ms]'' (later 29) Burst] \<and>
   matches_burst_pattern ''[burst detected: 30 chars in 580ms]'' \<and>
   timestamps (record_keys 30 key km t0 20 later new_KeystrokeRecorder) = [] \<and>
   length (timestamps (record_keys 35 key km t0 20 later new_KeystrokeRecorder)) = 5"
proof -
  have r35: "record_keys 35 key km t0 20 later new_KeystrokeRecorder =
     \<lparr>events = map (key_event key km t0) [0..<30] @ [burst_paste (later 29)]
                @ map (key_event key km t0) [30..<35],
      timestamps = map (key_time t0) [30..<35]\<rparr>"
    using record_keys_after_30[of 35 key km t0 later] by simp
  have "filter is_paste (events (record_keys 35 key km t0 20 later new_KeystrokeRecorder))
        = [burst_paste (later 29)]"
    unfolding r35 by (simp only: KeystrokeRecorder.simps filter_is_paste_35)
  moreover have "length (timestamps (record_keys 35 key km t0 20 later new_KeystrokeRecorder)) = 5"
    unfolding r35 by simp
  moreover have "timestamps (record_keys 30 key km t0 20 later new_KeystrokeRecorder) = []"
    by (simp only: record_keys_30 KeystrokeRecorder.simps)
  ultimately show ?thesis using matches by (simp add: burst_paste_def)
qed


section \<open>Paths and their parts\<close>

lemma split_on_nonempty: "split_on c s \<noteq> []"
  by (induction s) (auto split: list.splits)

lemma split_on_no_sep: "w \<in> set (split_on c s) \<Longrightarrow> c \<notin> set w"
proof (induction s arbitrary: w)
  case Nil
  then show ?case by simp
next
  case (Cons x xs)
  show ?case
  proof (cases "x = c")
    case True
    with Cons show ?thesis by auto
  next
    case False
    obtain v vs where s: "split_on c xs = v # vs"
      using split_on_nonempty[of c xs] by (cases "split_on c xs") auto
    with Cons.prems False have "w = x # v \<or> w \<in> set vs" by auto
    then show ?thesis
    proof
      assume "w = x # v"
      moreover have "c \<notin> set v" using Cons.IH[of v] s by simp
      ultimately show ?thesis using False by auto
    next
      assume "w \<in> set vs"
      then show ?thesis using Cons.IH[of w] s by simp
    qed
  qed
qed

lemma split_on_plain: "c \<notin> set x \<Longrightarrow> split_on c x = [x]"
  by (induction x) auto

lemma split_on_append: "c \<notin> set x \<Longrightarrow> split_on c (x @ c # s) = x # split_on c s"
  by (induction x) auto

lemma split_on_join:
  "ps \<noteq> [] \<Longrightarrow> \<forall>p \<in> set ps. CHR ''/'' \<notin> set p \<Longrightarrow> split_on CHR ''/'' (join ''/'' ps) = ps"
proof (induction "''/''" ps rule: join.induct)
  case 1
  then show ?case by simp
next
  case (2 x)
  then show ?case by (simp add: split_on_plain)
next
  case (3 x y ys)
  then show ?case by (simp add: split_on_append)
qed

lemma parts_of_abs_path:
  assumes "clean_parts ps"
  shows "filter_Boolean (split_on CHR ''/'' (CHR ''/'' # join ''/'' ps)) = ps"
proof (cases "ps = []")
  case True
  then show ?thesis by (simp add: filter_Boolean_def)
next
  case False
  from assms have a: "\<forall>p \<in> set ps. CHR ''/'' \<notin> set p" and b: "\<forall>p \<in> set ps. p \<noteq> []"
    by (auto simp: clean_parts_def list_all_iff)
  have "filter (\<lambda>s. s \<noteq> []) ps = ps" using b by (intro filter_True) auto
  with split_on_join[OF False a] show ?thesis by (simp add: filter_Boolean_def)
qed

lemma resolveParts_loop_clean_id:
  "clean_parts ps \<Longrightarrow> resolveParts_loop acc ps = acc @ ps"
  by (induction ps arbitrary: acc) (auto simp: clean_parts_def)

lemma resolveParts_of_abs_path:
  "clean_parts ps \<Longrightarrow> resolveParts (CHR ''/'' # join ''/'' ps) c = ps"
  using parts_of_abs_path[of ps]
  by (simp add: resolveParts_def startsWith_def resolveParts_loop_clean_id Let_def)

lemma clean_parts_butlast: "clean_parts ps \<Longrightarrow> clean_parts (butlast ps)"
  by (auto simp: clean_parts_def list_all_iff dest: in_set_butlastD)

lemma resolveParts_loop_clean:
  "clean_parts acc \<Longrightarrow> \<forall>p \<in> set inp. p \<noteq> [] \<and> CHR ''/'' \<notin> set p \<Longrightarrow>
   clean_parts (resolveParts_loop acc inp)"
proof (induction acc inp rule: resolveParts_loop.induct)
  case (1 resolved)
  then show ?case by simp
next
  case (2 resolved part rest)
  then show ?case
    using clean_parts_butlast[of resolved]
    by (auto simp: clean_parts_def)
qed

lemma input_parts_ok: "\<forall>p \<in> set (filter_Boolean (split_on CHR ''/'' s)). p \<noteq> [] \<and> CHR ''/'' \<notin> set p"
  using split_on_no_sep[of _ "CHR ''/''" s] by (auto simp: filter_Boolean_def)

lemma clean_resolveParts:
  assumes "startsWith path ''/'' \<or> clean_parts (filter_Boolean (split_on CHR ''/'' c))"
  shows "clean_parts (resolveParts path c)"
proof -
  have "clean_parts (if startsWith path ''/'' then [] else filter_Boolean (split_on CHR ''/'' c))"
    using assms by (auto simp: clean_parts_def)
  then show ?thesis
    using input_parts_ok[of path]
    by (simp only: resolveParts_def Let_def resolveParts_loop_clean)
qed

lemma clean_resolveParts_root: "clean_parts (resolveParts path ''/'')"
  by (rule clean_resolveParts) (simp add: filter_Boolean_def clean_parts_def)

section \<open>Walks of a tree and of the tree with one entry changed\<close>

lemma children_delete_eq: "children_delete fn = set_entry fn None"
  by (rule ext) (simp add: children_delete_def set_entry_def)

lemma ntype_set_children [simp]: "ntype (set_children m n) = ntype n"
  by (simp add: set_children_def)

lemma target_set_children [simp]: "target (set_children m n) = target n"
  by (simp add: set_children_def)

lemma children_set_children [simp]: "children (set_children m n) = Some m"
  by (simp add: set_children_def)

lemma ntype_set_undefined_entry [simp]: "ntype (set_undefined_entry u n) = ntype n"
  by (simp add: set_undefined_entry_def)

lemma target_set_undefined_entry [simp]: "target (set_undefined_entry u n) = target n"
  by (simp add: set_undefined_entry_def)

lemma children_set_undefined_entry [simp]: "children (set_undefined_entry u n) = children n"
  by (simp add: set_undefined_entry_def)

lemma ntype_set_entry [simp]: "ntype (set_entry fn v p) = ntype p"
  by (simp add: set_entry_def split: option.splits)

lemma target_set_entry [simp]: "target (set_entry fn v p) = target p"
  by (simp add: set_entry_def split: option.splits)

lemma children_set_entry: "children p = Some mp \<Longrightarrow> children (set_entry fn v p) = Some (mp(fn := v))"
  by (simp add: set_entry_def)

lemma ntype_children_set [simp]: "ntype (children_set k x p) = ntype p"
  by (simp add: children_set_def split: option.splits)

lemma target_children_set [simp]: "target (children_set k x p) = target p"
  by (simp add: children_set_def split: option.splits)

lemma children_children_set:
  "children p = Some mp \<Longrightarrow> children (children_set (Some fn) x p) = Some (mp(fn \<mapsto> x))"
  by (simp add: children_set_def)

lemma ntype_update_at: "(\<And>p. ntype (f p) = ntype p) \<Longrightarrow> ntype (update_at ks f n) = ntype n"
  by (cases ks) (auto split: option.splits)

lemma target_update_at: "(\<And>p. target (f p) = target p) \<Longrightarrow> target (update_at ks f n) = target n"
  by (cases ks) (auto split: option.splits)

lemma get_at_snoc:
  "get_at loc root = Some n \<Longrightarrow> children n = Some mn \<Longrightarrow> mn part = Some c \<Longrightarrow>
   get_at (loc @ [part]) root = Some c"
  by (induction loc arbitrary: root) (auto split: option.splits)

lemma ntype_with_entry:
  "(\<And>p. ntype (g p) = ntype p) \<Longrightarrow> loc \<noteq> locP @ [fn] \<Longrightarrow>
   ntype (with_entry locP g fn v loc n) = ntype n"
  by (simp add: with_entry_def ntype_update_at)

lemma target_with_entry:
  "(\<And>p. target (g p) = target p) \<Longrightarrow> loc \<noteq> locP @ [fn] \<Longrightarrow>
   target (with_entry locP g fn v loc n) = target n"
  by (simp add: with_entry_def target_update_at)

lemma with_entry_root: "with_entry locP g fn v [] root = update_at locP g root"
  by (simp add: with_entry_def)

lemma take_snoc_prefix:
  assumes "take (length loc) locP = loc" "loc \<noteq> locP"
  shows "drop (length loc) locP = (locP ! length loc) # drop (Suc (length loc)) locP \<and>
         length loc < length locP"
proof -
  have "length loc < length locP"
  proof (rule ccontr)
    assume "\<not> length loc < length locP"
    then have "take (length loc) locP = locP" by simp
    with assms show False by simp
  qed
  then show ?thesis by (simp add: Cons_nth_drop_Suc)
qed

lemma take_snoc_not_prefix:
  assumes "take (length loc) locP \<noteq> loc"
  shows "take (length (loc @ [part])) locP \<noteq> loc @ [part]"
proof
  assume a: "take (length (loc @ [part])) locP = loc @ [part]"
  have "take (length loc) (take (length (loc @ [part])) locP) = take (length loc) locP"
    by (simp add: min_def)
  with a have "take (length loc) locP = loc" by simp
  with assms show False by simp
qed

lemma children_with_entry:
  assumes "loc \<noteq> locP @ [fn]" "children n = Some mn"
    and gc: "\<And>p mp. children p = Some mp \<Longrightarrow> children (g p) = Some (mp(fn := v))"
  shows "\<exists>mn'. children (with_entry locP g fn v loc n) = Some mn' \<and>
           (\<forall>part. mn' part = (if loc = locP \<and> part = fn then v
                               else map_option (with_entry locP g fn v (loc @ [part])) (mn part)))"
proof (cases "take (length loc) locP = loc")
  case False
  then have "with_entry locP g fn v loc n = n" using assms(1) by (simp add: with_entry_def)
  moreover have "with_entry locP g fn v (loc @ [part]) c = c" for part c
  proof -
    have "take (length (loc @ [part])) locP \<noteq> loc @ [part]"
      using False by (rule take_snoc_not_prefix)
    moreover have "loc \<noteq> locP" using False by auto
    then have "loc @ [part] \<noteq> locP @ [fn]" by simp
    ultimately show ?thesis by (auto simp: with_entry_def)
  qed
  ultimately show ?thesis using assms(1,2) False
    by (auto simp: option.map_ident map_option_case split: option.splits)
next
  case True
  show ?thesis
  proof (cases "loc = locP")
    case True
    then have w: "with_entry locP g fn v loc n = g n"
      by (simp add: with_entry_def)
    have cg: "children (g n) = Some (mn(fn := v))" using gc[OF assms(2)] .
    have "with_entry locP g fn v (locP @ [part]) c = c" if "part \<noteq> fn" for part c
      using that by (simp add: with_entry_def)
    then show ?thesis using w cg True by (auto simp: map_option_case split: option.splits)
  next
    case False
    from take_snoc_prefix[OF True False] obtain k ks where
      d: "drop (length loc) locP = k # ks" "k = locP ! length loc" "ks = drop (Suc (length loc)) locP"
      "length loc < length locP" by auto
    have pk: "take (length (loc @ [k])) locP = loc @ [k]"
      using True d by (simp add: take_Suc_conv_app_nth)
    have wk: "with_entry locP g fn v (loc @ [k]) c = update_at ks g c" for c
      using pk d by (simp add: with_entry_def)
    have wo: "with_entry locP g fn v (loc @ [part]) c = c" if "part \<noteq> k" for part c
    proof -
      have "take (length (loc @ [part])) locP \<noteq> loc @ [part]"
        using pk that by auto
      moreover have "loc @ [part] \<noteq> locP @ [fn]" using False by auto
      ultimately show ?thesis by (auto simp: with_entry_def)
    qed
    show ?thesis
    proof (cases "mn k")
      case None
      then have w: "with_entry locP g fn v loc n = n"
        using True d assms(2) by (simp add: with_entry_def)
      have "mn part = map_option (with_entry locP g fn v (loc @ [part])) (mn part)" for part
      proof (cases "part = k")
        case True
        with None show ?thesis by simp
      next
        case False
        then show ?thesis using wo[OF False] by (cases "mn part") simp_all
      qed
      then show ?thesis using w assms(2) \<open>loc \<noteq> locP\<close> by auto
    next
      case (Some c0)
      then have w: "with_entry locP g fn v loc n
                    = set_children (mn(k \<mapsto> update_at ks g c0)) n"
        using True d assms(2) by (simp add: with_entry_def)
      have "(mn(k \<mapsto> update_at ks g c0)) part
            = map_option (with_entry locP g fn v (loc @ [part])) (mn part)" for part
      proof (cases "part = k")
        case True
        with Some wk show ?thesis by simp
      next
        case False
        then show ?thesis using wo[OF False] by (cases "mn part") simp_all
      qed
      then show ?thesis using w \<open>loc \<noteq> locP\<close> by auto
    qed
  qed
qed

lemma get_at_entry:
  "get_at locP root = Some P \<Longrightarrow> children P = Some m \<Longrightarrow> get_at (locP @ [fn]) root = m fn"
  by (induction locP arbitrary: root) (auto split: option.splits)

text \<open>
  A walk that succeeds in a tree succeeds in the tree with one entry changed, with the same
  symlinks followed, when the entry was absent, or when it was no directory, the new entry is
  a file and the walk did not follow the entry as a symlink.
\<close>

lemma followed_sim:
  assumes gt: "\<And>p. ntype (g p) = ntype p"
    and gg: "\<And>p. target (g p) = target p"
    and gc: "\<And>p mp. children p = Some mp \<Longrightarrow> children (g p) = Some (mp(fn := v))"
  shows
  "followed_loop root pre rest cur follow d = Some (links, res) \<Longrightarrow>
   get_at (fst cur) root = Some (snd cur) \<Longrightarrow>
   get_at locP root = Some P \<Longrightarrow> children P = Some m \<Longrightarrow>
   m fn = None \<or> (\<exists>e x. m fn = Some e \<and> v = Some x \<and> ntype e \<noteq> Directory \<and> ntype x = File \<and>
                          locP @ [fn] \<notin> set links) \<Longrightarrow>
   followed_loop (update_at locP g root) pre rest (ref_with_entry locP g fn v cur) follow d
     = Some (links, ref_with_entry locP g fn v res) \<and> get_at (fst res) root = Some (snd res)"
proof (induction root pre rest cur follow d arbitrary: links res rule: followed_loop.induct)
  case (1 root pre current followSymlinks depth)
  then show ?case by auto
next
  case (2 root pre part rest current followSymlinks depth)
  let ?root' = "update_at locP g root"
  let ?W = "with_entry locP g fn v"
  let ?R = "ref_with_entry locP g fn v"
  note gP = "2.prems"(3) and mP = "2.prems"(4) and cond = "2.prems"(5)
  obtain loc n where cur: "current = (loc, n)" by (cases current)
  from "2.prems"(1) have dir: "ntype n = Directory"
    by (auto simp: cur split: if_splits)
  from "2.prems"(1) dir obtain mn where mn: "children n = Some mn"
    by (auto simp: cur split: option.splits)
  from "2.prems"(1) dir mn obtain c where c: "mn part = Some c"
    by (auto simp: cur split: option.splits)
  have gn: "get_at loc root = Some n" using "2.prems"(2) cur by simp
  have gc': "get_at (loc @ [part]) root = Some c" using get_at_snoc[OF gn mn c] .
  have notD: "loc \<noteq> locP @ [fn]"
  proof
    assume "loc = locP @ [fn]"
    with gn get_at_entry[OF gP mP, of fn] have "m fn = Some n" by simp
    with cond dir show False by auto
  qed
  have dir': "ntype (?W loc n) = Directory" using ntype_with_entry[OF gt notD] dir by simp
  from children_with_entry[where g = g and v = v, OF notD mn gc] obtain mn' where
    mn': "children (?W loc n) = Some mn'"
    and mn'_at: "\<And>q. mn' q = (if loc = locP \<and> q = fn then v else map_option (?W (loc @ [q])) (mn q))"
    by blast
  have c1: "\<not> ntype (snd current) \<noteq> Directory" using dir cur by simp
  have c2: "children (snd current) = Some mn" using mn cur by simp
  show ?case
  proof (cases "ntype c = Symlink \<and> followSymlinks \<and> truthy (target c)")
    case sym: True
    let ?tp = "resolveParts (case target c of None \<Rightarrow> [] | Some t \<Rightarrow> t) (CHR ''/'' # join ''/'' pre)"
    from "2.prems"(1) dir mn c sym have d: "\<not> depth + 1 > 20"
      by (auto simp: cur split: if_splits)
    from "2.prems"(1) dir mn c sym d obtain l1 tn l2 where
      tn: "followed_loop root [] ?tp ([], root) True (depth + 1) = Some (l1, tn)"
      and old: "followed_loop root (pre @ [part]) rest tn followSymlinks depth = Some (l2, res)"
      and links: "links = (loc @ [part]) # l1 @ l2"
      by (auto simp: cur split: option.splits prod.splits)
    have notE: "\<not> (loc = locP \<and> part = fn)"
    proof
      assume a: "loc = locP \<and> part = fn"
      then have "n = P" using gn gP by simp
      with mn mP have "mn = m" by simp
      with c a cond links show False by auto
    qed
    then have notD2: "loc @ [part] \<noteq> locP @ [fn]" by auto
    have child': "mn' part = Some (?W (loc @ [part]) c)" using mn'_at[of part] notE c by auto
    have ty: "ntype (?W (loc @ [part]) c) = ntype c" using ntype_with_entry[OF gt notD2] by simp
    have tg: "target (?W (loc @ [part]) c) = target c" using target_with_entry[OF gg notD2] by simp
    have cond1: "m fn = None \<or> (\<exists>e x. m fn = Some e \<and> v = Some x \<and> ntype e \<noteq> Directory \<and>
                   ntype x = File \<and> locP @ [fn] \<notin> set l1)"
      using cond links by auto
    have cond2: "m fn = None \<or> (\<exists>e x. m fn = Some e \<and> v = Some x \<and> ntype e \<noteq> Directory \<and>
                   ntype x = File \<and> locP @ [fn] \<notin> set l2)"
      using cond links by auto
    have g0: "get_at (fst ([], root)) root = Some (snd ([], root))" by simp
    from "2.IH"(1)[OF c1 c2 c sym d tn g0 gP mP cond1]
    have ntn: "followed_loop ?root' [] ?tp ([], ?root') True (depth + 1) = Some (l1, ?R tn)"
      and gtn: "get_at (fst tn) root = Some (snd tn)"
      by (simp_all add: ref_with_entry_def with_entry_root)
    have c5: "(if 20 < depth + 1 then None
               else followed_loop root [] ?tp ([], root) True (depth + 1)) = Some (l1, tn)"
      using d tn by simp
    from "2.IH"(2)[OF c1 c2 c sym c5 refl old gtn gP mP cond2]
    have new: "followed_loop ?root' (pre @ [part]) rest (?R tn) followSymlinks depth
                 = Some (l2, ?R res)"
      and gres: "get_at (fst res) root = Some (snd res)"
      by simp_all
    show ?thesis
      using new gres dir' mn' child' ty tg sym d ntn links
      by (simp add: ref_with_entry_def cur)
  next
    case plain: False
    from "2.prems"(1) dir mn c plain
    have old: "followed_loop root (pre @ [part]) rest (fst current @ [part], c) followSymlinks depth
                 = Some (links, res)"
      by (simp add: cur)
    have g: "get_at (fst (fst current @ [part], c)) root = Some (snd (fst current @ [part], c))"
      using gc' cur by simp
    from "2.IH"(3)[OF c1 c2 c plain old g gP mP cond]
    have new: "followed_loop ?root' (pre @ [part]) rest (?R (loc @ [part], c)) followSymlinks depth
                 = Some (links, ?R res)"
      and gres: "get_at (fst res) root = Some (snd res)"
      using cur by simp_all
    show ?thesis
    proof (cases "loc = locP \<and> part = fn")
      case True
      then have "n = P" using gn gP by simp
      with mn mP have "mn = m" by simp
      with c True cond obtain x where x: "v = Some x" "ntype x = File" by auto
      have child': "mn' part = Some x" using mn'_at[of part] True x by simp
      have wc: "?W (loc @ [part]) c = x" using True x by (simp add: with_entry_def)
      show ?thesis
        using new gres dir' mn' child' x wc by (simp add: ref_with_entry_def cur)
    next
      case False
      then have notD2: "loc @ [part] \<noteq> locP @ [fn]" by auto
      have child': "mn' part = Some (?W (loc @ [part]) c)" using mn'_at[of part] False c by auto
      have ty: "ntype (?W (loc @ [part]) c) = ntype c" using ntype_with_entry[OF gt notD2] by simp
      have tg: "target (?W (loc @ [part]) c) = target c" using target_with_entry[OF gg notD2] by simp
      show ?thesis
        using new gres dir' mn' child' ty tg plain
        by (auto simp: ref_with_entry_def cur)
    qed
  qed
qed

lemma walk_sim:
  assumes gt: "\<And>p. ntype (g p) = ntype p"
    and gg: "\<And>p. target (g p) = target p"
    and gc: "\<And>p mp. children p = Some mp \<Longrightarrow> children (g p) = Some (mp(fn := v))"
    and w: "walk_loop root pre rest cur follow d = Some res"
    and g0: "get_at (fst cur) root = Some (snd cur)"
    and gP: "get_at locP root = Some P" and mP: "children P = Some m"
    and absent: "m fn = None"
  shows "walk_loop (update_at locP g root) pre rest (ref_with_entry locP g fn v cur) follow d
           = Some (ref_with_entry locP g fn v res) \<and> get_at (fst res) root = Some (snd res)"
proof -
  from w obtain links where f: "followed_loop root pre rest cur follow d = Some (links, res)"
    by (auto simp: walk_loop_followed)
  have cond: "m fn = None \<or> (\<exists>e x. m fn = Some e \<and> v = Some x \<and> ntype e \<noteq> Directory \<and>
                ntype x = File \<and> locP @ [fn] \<notin> set links)"
    using absent by simp
  from followed_sim[OF gt gg gc f g0 gP mP cond] show ?thesis
    by (simp add: walk_loop_followed)
qed

lemma walk_loop_append:
  "walk_loop root pre (r1 @ r2) cur follow d =
     (case walk_loop root pre r1 cur follow d of
        None \<Rightarrow> None
      | Some c \<Rightarrow> walk_loop root (pre @ r1) r2 c follow d)"
proof (induction root pre r1 cur follow d rule: walk_loop.induct)
  case (1 root pre current followSymlinks depth)
  then show ?case by simp
next
  case (2 root pre part rest current followSymlinks depth)
  then show ?case
    by (auto split: option.splits)
qed

lemma walk_loop_get_at:
  "walk_loop root pre rest cur follow d = Some res \<Longrightarrow> get_at (fst cur) root = Some (snd cur) \<Longrightarrow>
   get_at (fst res) root = Some (snd res)"
proof (induction root pre rest cur follow d arbitrary: res rule: walk_loop.induct)
  case (1 root pre current followSymlinks depth)
  then show ?case by auto
next
  case (2 root pre part rest current followSymlinks depth)
  from "2.prems"(1) have dir: "ntype (snd current) = Directory"
    by (auto split: if_splits)
  from "2.prems"(1) dir obtain mn where mn: "children (snd current) = Some mn"
    by (auto split: option.splits)
  from "2.prems"(1) dir mn obtain c where c: "mn part = Some c"
    by (auto split: option.splits)
  have c1: "\<not> ntype (snd current) \<noteq> Directory" using dir by simp
  have gc: "get_at (fst current @ [part]) root = Some c" using get_at_snoc[OF "2.prems"(2) mn c] .
  show ?case
  proof (cases "ntype c = Symlink \<and> followSymlinks \<and> truthy (target c)")
    case sym: True
    let ?tp = "resolveParts (case target c of None \<Rightarrow> [] | Some t \<Rightarrow> t) (CHR ''/'' # join ''/'' pre)"
    from "2.prems"(1) dir mn c sym have d: "\<not> depth + 1 > 20"
      by (auto split: if_splits)
    from "2.prems"(1) dir mn c sym d obtain tn where
      tn: "walk_loop root [] ?tp ([], root) True (depth + 1) = Some tn"
      and old: "walk_loop root (pre @ [part]) rest tn followSymlinks depth = Some res"
      by (auto split: option.splits)
    have g0: "get_at (fst ([], root)) root = Some (snd ([], root))" by simp
    have gtn: "get_at (fst tn) root = Some (snd tn)"
      using "2.IH"(1)[OF c1 mn c sym d tn g0] .
    have c5: "(if 20 < depth + 1 then None
               else walk_loop root [] ?tp ([], root) True (depth + 1)) = Some tn"
      using d tn by simp
    show ?thesis using "2.IH"(2)[OF c1 mn c sym c5 old gtn] .
  next
    case plain: False
    from "2.prems"(1) dir mn c plain
    have old: "walk_loop root (pre @ [part]) rest (fst current @ [part], c) followSymlinks depth = Some res"
      by auto
    have g: "get_at (fst (fst current @ [part], c)) root = Some (snd (fst current @ [part], c))"
      using gc by simp
    show ?thesis using "2.IH"(3)[OF c1 mn c plain old g] .
  qed
qed

lemma get_at_update_at:
  "get_at loc root = Some P \<Longrightarrow> get_at loc (update_at loc f root) = Some (f P)"
  by (induction loc arbitrary: root) (auto split: option.splits)

lemma set_children_same: "children n = Some m \<Longrightarrow> set_children m n = n"
  by (cases n) (simp add: set_children_def)

lemma set_children_twice [simp]: "set_children m (set_children m' n) = set_children m n"
  by (simp add: set_children_def)

lemma set_entry_restore:
  "children P = Some m \<Longrightarrow> m fn = Some e \<Longrightarrow> set_entry fn (Some e) (set_entry fn None P) = P"
proof -
  assume a: "children P = Some m" "m fn = Some e"
  then have "(m(fn := None))(fn \<mapsto> e) = m" by (auto simp: fun_eq_iff)
  with a show ?thesis by (simp add: set_entry_def set_children_same)
qed

lemma update_at_restore:
  "get_at loc root = Some P \<Longrightarrow> (f (g P) = P) \<Longrightarrow> update_at loc f (update_at loc g root) = root"
proof (induction loc arbitrary: root)
  case Nil
  then show ?case by simp
next
  case (Cons k ks)
  from Cons.prems(1) obtain m c where m: "children root = Some m" "m k = Some c" "get_at ks c = Some P"
    by (auto split: option.splits)
  have "update_at ks f (update_at ks g c) = c" using Cons.IH[OF m(3) Cons.prems(2)] .
  moreover have "m(k \<mapsto> c) = m" using m(2) by (auto simp: fun_eq_iff)
  ultimately show ?case using m by (simp add: set_children_same)
qed

section \<open>Reading back what was written\<close>

lemma resolve_parent_path:
  "clean_parts ps \<Longrightarrow> resolve root (CHR ''/'' # join ''/'' (butlast ps)) ''/'' = walk root (butlast ps) True 0"
  by (simp add: resolve_def resolveParts_of_abs_path clean_parts_butlast)

text \<open>\<^verbatim>\<open>writeFile\<close> in terms of the parts of the path, for a path that has a last part.\<close>

lemma writeFile_by_parts:
  assumes ps: "ps = resolveParts path dir" "clean_parts ps" "ps \<noteq> []"
  shows "writeFile root path str dir now =
           (case walk root (butlast ps) True 0 of
              None \<Rightarrow> Inr (False, root)
            | Some (loc, parent) \<Rightarrow>
                if ntype parent \<noteq> Directory then Inr (False, root)
                else (case children parent of
                        None \<Rightarrow> Inl TypeError
                      | Some m \<Rightarrow>
                          if (case m (last ps) of
                                Some existing \<Rightarrow> ntype existing = Directory
                              | None \<Rightarrow> False)
                          then Inr (False, root)
                          else Inr (True,
                                 update_at loc
                                   (children_set (Some (last ps)) (new_file (Some (last ps)) str now))
                                   root)))"
proof -
  have parts: "filter_Boolean (split_on CHR ''/'' (resolvePath path dir)) = ps"
    unfolding resolvePath_def ps(1)[symmetric] by (rule parts_of_abs_path[OF ps(2)])
  show ?thesis
    using ps(3)
    unfolding writeFile_def Let_def parts resolve_parent_path[OF ps(2)]
    by (auto simp: children_get_def split: option.splits prod.splits)
qed

lemma walk_step_plain:
  "ntype n = Directory \<Longrightarrow> children n = Some mn \<Longrightarrow> mn part = Some c \<Longrightarrow> ntype c = File \<Longrightarrow>
   walk_loop root pre [part] (loc, n) follow d = Some (loc @ [part], c)"
  by simp

text \<open>
  After a successful write the path resolves to the new file, unless the entry replaced is
  a symlink that the walk to the parent directory follows.
\<close>

lemma resolve_after_write:
  assumes ps: "ps = resolveParts path dir" "ps \<noteq> []"
    and par: "walk root (butlast ps) True 0 = Some (locP, P)" "ntype P = Directory"
      "children P = Some m" "\<forall>e. m (last ps) = Some e \<longrightarrow> ntype e \<noteq> Directory"
    and links: "followed_loop root [] (butlast ps) ([], root) True 0 = Some (links, (locP, P))"
      "locP @ [last ps] \<notin> set links"
    and nf: "nf = new_file (Some (last ps)) str now"
    and root': "root' = update_at locP (children_set (Some (last ps)) nf) root"
  shows "resolve root' path dir = Some (locP @ [last ps], nf)"
proof -
  define fn where "fn = last ps"
  define g where "g = children_set (Some fn) nf"
  have gt: "\<And>p. ntype (g p) = ntype p" and gg: "\<And>p. target (g p) = target p"
    by (simp_all add: g_def)
  have gc: "\<And>p mp. children p = Some mp \<Longrightarrow> children (g p) = Some (mp(fn := Some nf))"
    by (simp add: g_def children_children_set)
  have isfile: "ntype nf = File" by (simp add: nf new_file_def)
  have wl: "walk_loop root [] (butlast ps) ([], root) True 0 = Some (locP, P)"
    using par(1) by (simp add: walk_def)
  have gP: "get_at locP root = Some P"
    using walk_loop_get_at[OF wl] by simp
  have cond: "m fn = None \<or> (\<exists>e x. m fn = Some e \<and> Some nf = Some x \<and> ntype e \<noteq> Directory \<and>
                ntype x = File \<and> locP @ [fn] \<notin> set links)"
    using par(4) links(2) isfile by (cases "m fn") (simp_all add: fn_def)
  have g0: "get_at (fst ([], root)) root = Some (snd ([], root))" by simp
  from followed_sim[where g = g and v = "Some nf", OF gt gg gc links(1) g0 gP par(3) cond]
  have "followed_loop root' [] (butlast ps) ([], root') True 0 = Some (links, (locP, g P))"
    by (simp add: ref_with_entry_def with_entry_root root' with_entry_def g_def fn_def)
  then have new_parent: "walk_loop root' [] (butlast ps) ([], root') True 0 = Some (locP, g P)"
    by (simp add: walk_loop_followed)
  have P': "ntype (g P) = Directory" "children (g P) = Some (m(fn \<mapsto> nf))"
    using par gt gc[OF par(3)] by simp_all
  have ps_split: "ps = butlast ps @ [fn]" using ps(2) by (simp add: fn_def)
  have "walk_loop root' [] ps ([], root') True 0
        = walk_loop root' [] (butlast ps @ [fn]) ([], root') True 0"
    using ps_split by simp
  also have "\<dots> = walk_loop root' (butlast ps) [fn] (locP, g P) True 0"
    by (simp add: walk_loop_append new_parent)
  also have "\<dots> = Some (locP @ [fn], nf)"
    by (rule walk_step_plain[OF P']) (simp_all add: isfile)
  finally show ?thesis
    by (simp add: resolve_def walk_def ps(1)[symmetric] fn_def)
qed

lemma empty_root_eval:
  "writeFile empty_root ''/a/b'' ''x'' ''/'' 0 = Inr (False, empty_root)"
  "readFile empty_root ''/a/b'' ''/'' = None"
  "\<not> exists_path empty_root ''/a/b'' ''/''"
  by (simp_all add: writeFile_def readFile_def exists_path_def resolvePath_def resolveParts_def
      startsWith_def filter_Boolean_def resolve_def walk_def empty_root_def)

text \<open>
  C4, as stated, fails: in the empty filesystem \<^verbatim>\<open>writeFile('/a/b', 'x')\<close> finds no parent
  directory, returns \<^verbatim>\<open>false\<close> and leaves the tree as it is, so the file cannot be read
  back and does not exist.
\<close>

theorem writeFile_missing_parent_counterexample:
  "writeFile empty_root ''/a/b'' ''x'' ''/'' 0 = Inr (False, empty_root) \<and>
   readFile empty_root ''/a/b'' ''/'' \<noteq> Some ''x'' \<and>
   \<not> exists_path empty_root ''/a/b'' ''/''"
  by (simp add: empty_root_eval)

text \<open>
  Three more ways in which a write is not read back, which the amended claim excludes. The
  entry replaced is a symlink that the walk to the parent directory goes through: the write
  returns \<^verbatim>\<open>true\<close> and the path no longer resolves. The working directory has a \<^verbatim>\<open>..\<close>
  part: the file is written next to \<^verbatim>\<open>a\<close>, and read below it. The path is \<^verbatim>\<open>/\<close>: the file
  is stored in the root under the key \<^verbatim>\<open>undefined\<close>, where no path finds it.
\<close>

lemma writeFile_replaces_symlink_on_its_own_path:
  "\<exists>r. writeFile root_with_link ''/a/link/link'' ''x'' ''/'' 0 = Inr (True, r) \<and>
       readFile r ''/a/link/link'' ''/'' = None"
  by (simp add: writeFile_def resolvePath_def resolveParts_def startsWith_def filter_Boolean_def
      resolve_def walk_def root_with_link_def dir_a_def link_to_a_def truthy_def children_set_def
      children_get_def set_children_def new_file_def readFile_def)

lemma writeFile_unnormalised_cwd:
  "\<exists>r. writeFile root_with_link ''f'' ''x'' ''/a/..'' 0 = Inr (True, r) \<and>
       readFile r ''f'' ''/a/..'' = None"
  by (simp add: writeFile_def resolvePath_def resolveParts_def startsWith_def filter_Boolean_def
      resolve_def walk_def root_with_link_def dir_a_def link_to_a_def truthy_def children_set_def
      children_get_def set_children_def new_file_def readFile_def)

lemma writeFile_root_path:
  "writeFile empty_root ''/'' ''x'' ''/'' now =
     Inr (True, FSNode (Some ''/'') Directory None (Some Map.empty) None (Some ''drwxr-xr-x'') None
                  (Some (new_file None ''x'' now, True)))"
  "\<exists>r. writeFile empty_root ''/'' ''x'' ''/'' now = Inr (True, r) \<and> readFile r ''/'' ''/'' = None"
  by (simp_all add: writeFile_def resolvePath_def resolveParts_def startsWith_def filter_Boolean_def
      resolve_def walk_def empty_root_def children_set_def children_get_def
      set_undefined_entry_def readFile_def)

text \<open>
  C4, amended. Let the path have at least one part and be absolute or relative to a
  directory without \<^verbatim>\<open>.\<close> and \<^verbatim>\<open>..\<close> parts.

  If its parent resolves to a directory and the path does not name a directory, then
  \<^verbatim>\<open>writeFile\<close> returns \<^verbatim>\<open>true\<close> and leaves the tree with the new file as the entry the path
  names and nothing else changed; and unless that entry was a symlink that the walk to the
  parent follows, \<^verbatim>\<open>readFile\<close> of the same path then returns the content written and the path
  exists.

  If the parent does not resolve to a directory, or the path names a directory,
  \<^verbatim>\<open>writeFile\<close> returns \<^verbatim>\<open>false\<close> and leaves the tree as it is. (In the remaining case, a
  directory node without \<^verbatim>\<open>children\<close> map as parent, it throws.)
\<close>

theorem writeFile_then_readFile:
  assumes cwd_ok: "startsWith path ''/'' \<or> normal_cwd dir"
    and not_root: "resolveParts path dir \<noteq> []"
  shows "(parent_is_directory root path dir \<and> \<not> names_directory root path dir \<longrightarrow>
            writeFile root path str dir now = Inr (True, with_file root path str dir now) \<and>
            (\<not> replaces_followed_link root path dir \<longrightarrow>
               readFile (with_file root path str dir now) path dir = Some str \<and>
               exists_path (with_file root path str dir now) path dir)) \<and>
         (parent_kind root path dir \<noteq> Some Directory \<or> names_directory root path dir \<longrightarrow>
            writeFile root path str dir now = Inr (False, root)) \<and>
         (parent_kind root path dir = Some Directory \<and> \<not> parent_is_directory root path dir \<longrightarrow>
            writeFile root path str dir now = Inl TypeError)"
proof -
  define ps where "ps = resolveParts path dir"
  have clean: "clean_parts ps"
    unfolding ps_def using cwd_ok by (intro clean_resolveParts) (simp add: normal_cwd_def)
  have ne: "ps \<noteq> []" using not_root ps_def by simp
  define fn where "fn = last ps"
  define nf where "nf = new_file (Some fn) str now"
  note wf = writeFile_by_parts[OF ps_def clean ne, of root str now, folded fn_def]
  have fname: "file_name path dir = fn" by (simp add: file_name_def fn_def ps_def)
  have pof: "parent_of root path dir = walk root (butlast ps) True 0"
    by (simp add: parent_of_def ps_def)
  have written: "writeFile root path str dir now = Inr (True, with_file root path str dir now) \<and>
            (\<not> replaces_followed_link root path dir \<longrightarrow>
               readFile (with_file root path str dir now) path dir = Some str \<and>
               exists_path (with_file root path str dir now) path dir)"
    if a: "parent_is_directory root path dir" "\<not> names_directory root path dir"
  proof -
    from a(1) obtain locP P m where
      par: "walk root (butlast ps) True 0 = Some (locP, P)" "ntype P = Directory" "children P = Some m"
      by (auto simp: parent_is_directory_def pof split: option.splits)
    have ent: "entry_of root path dir = m fn"
      using par ne by (simp add: entry_of_def pof fname ps_def[symmetric])
    have nd: "\<forall>e. m fn = Some e \<longrightarrow> ntype e \<noteq> Directory"
      using a(2) ent by (auto simp: names_directory_def)
    define root' where "root' = update_at locP (children_set (Some fn) nf) root"
    have wfile: "with_file root path str dir now = root'"
      using par by (simp add: with_file_def pof fname root'_def nf_def)
    have w: "writeFile root path str dir now = Inr (True, root')"
      using par nd unfolding wf root'_def nf_def by (auto split: option.splits)
    have "readFile root' path dir = Some str \<and> exists_path root' path dir"
      if nofollow: "\<not> replaces_followed_link root path dir"
    proof -
      from par(1) obtain links where
        links: "followed_loop root [] (butlast ps) ([], root) True 0 = Some (links, (locP, P))"
        by (auto simp: walk_def walk_loop_followed)
      have "links_to_parent root path dir = links"
        using links by (simp add: links_to_parent_def ps_def[symmetric])
      moreover have "entry_position root path dir = Some (locP @ [fn])"
        using par by (simp add: entry_position_def pof fname)
      ultimately have nl: "locP @ [last ps] \<notin> set links"
        using nofollow by (simp add: replaces_followed_link_def fn_def)
      from resolve_after_write[OF ps_def ne par(1,2,3) nd[unfolded fn_def] links nl
          nf_def[unfolded fn_def] root'_def[unfolded fn_def]]
      have "resolve root' path dir = Some (locP @ [fn], nf)" by (simp add: fn_def)
      then show ?thesis
        by (simp add: readFile_def exists_path_def nf_def new_file_def)
    qed
    with w wfile show ?thesis by simp
  qed
  have refused: "writeFile root path str dir now = Inr (False, root)"
    if b: "parent_kind root path dir \<noteq> Some Directory \<or> names_directory root path dir"
  proof (cases "walk root (butlast ps) True 0")
    case None
    then show ?thesis unfolding wf by simp
  next
    case (Some r)
    obtain locP P where r: "r = (locP, P)" by (cases r)
    show ?thesis
    proof (cases "ntype P = Directory")
      case False
      then show ?thesis unfolding wf using Some r by simp
    next
      case True
      then have "names_directory root path dir"
        using b Some r by (simp add: parent_kind_def pof)
      then obtain m e where "children P = Some m" "m fn = Some e" "ntype e = Directory"
        using Some r ne
        by (auto simp: names_directory_def entry_of_def pof fname ps_def[symmetric]
            split: option.splits)
      then show ?thesis unfolding wf using Some r True by simp
    qed
  qed
  have throws: "writeFile root path str dir now = Inl TypeError"
    if c: "parent_kind root path dir = Some Directory" "\<not> parent_is_directory root path dir"
  proof -
    from c obtain locP P where "walk root (butlast ps) True 0 = Some (locP, P)"
      "ntype P = Directory" "children P = None"
      by (auto simp: parent_kind_def parent_is_directory_def pof split: option.splits)
    then show ?thesis unfolding wf by simp
  qed
  from written refused throws show ?thesis by blast
qed

text \<open>
  The theorem at work: in \<open>small_root\<close> the path \<^verbatim>\<open>/loop\<close> names a symlink, which the write
  replaces by a file that is then read back; in the empty filesystem the write of
  \<^verbatim>\<open>/a/b\<close> is refused; below a directory without \<^verbatim>\<open>children\<close> map the write throws.
\<close>

lemma small_root_loop_premises:
  "resolveParts ''/loop'' ''/'' \<noteq> []"
  "parent_is_directory small_root ''/loop'' ''/''"
  "\<not> names_directory small_root ''/loop'' ''/''"
  "names_symlink small_root ''/loop'' ''/''"
  "\<not> replaces_followed_link small_root ''/loop'' ''/''"
  by (simp_all add: parent_is_directory_def names_directory_def names_symlink_def
      replaces_followed_link_def entry_position_def links_to_parent_def entry_of_def
      parent_of_def file_name_def resolveParts_def startsWith_def filter_Boolean_def walk_def
      small_root_def loop_link_def)

lemma empty_root_premises:
  "resolveParts ''/a/b'' ''/'' \<noteq> []"
  "parent_kind empty_root ''/a/b'' ''/'' \<noteq> Some Directory"
  by (simp_all add: parent_kind_def parent_of_def resolveParts_def startsWith_def
      filter_Boolean_def walk_def empty_root_def)

lemma bare_directory_premises:
  "resolveParts ''/x'' ''/'' \<noteq> []"
  "parent_kind bare_directory ''/x'' ''/'' = Some Directory"
  "\<not> parent_is_directory bare_directory ''/x'' ''/''"
  by (simp_all add: parent_kind_def parent_is_directory_def parent_of_def resolveParts_def
      startsWith_def filter_Boolean_def walk_def bare_directory_def)

theorem writeFile_then_readFile_witness:
  "(startsWith ''/loop'' ''/'' \<or> normal_cwd ''/'') \<and>
   resolveParts ''/loop'' ''/'' \<noteq> [] \<and>
   parent_is_directory small_root ''/loop'' ''/'' \<and>
   \<not> names_directory small_root ''/loop'' ''/'' \<and>
   \<not> replaces_followed_link small_root ''/loop'' ''/'' \<and>
   writeFile small_root ''/loop'' ''x'' ''/'' 0 = Inr (True, with_file small_root ''/loop'' ''x'' ''/'' 0) \<and>
   readFile (with_file small_root ''/loop'' ''x'' ''/'' 0) ''/loop'' ''/'' = Some ''x'' \<and>
   exists_path (with_file small_root ''/loop'' ''x'' ''/'' 0) ''/loop'' ''/'' \<and>
   (startsWith ''/a/b'' ''/'' \<or> normal_cwd ''/'') \<and>
   resolveParts ''/a/b'' ''/'' \<noteq> [] \<and>
   parent_kind empty_root ''/a/b'' ''/'' \<noteq> Some Directory \<and>
   writeFile empty_root ''/a/b'' ''x'' ''/'' 0 = Inr (False, empty_root) \<and>
   (startsWith ''/x'' ''/'' \<or> normal_cwd ''/'') \<and>
   resolveParts ''/x'' ''/'' \<noteq> [] \<and>
   parent_kind bare_directory ''/x'' ''/'' = Some Directory \<and>
   \<not> parent_is_directory bare_directory ''/x'' ''/'' \<and>
   writeFile bare_directory ''/x'' ''x'' ''/'' 0 = Inl TypeError"
proof -
  have a: "startsWith ''/loop'' ''/'' \<or> normal_cwd ''/''" by (simp add: startsWith_def)
  have b: "startsWith ''/a/b'' ''/'' \<or> normal_cwd ''/''" by (simp add: startsWith_def)
  have c: "startsWith ''/x'' ''/'' \<or> normal_cwd ''/''" by (simp add: startsWith_def)
  from writeFile_then_readFile[OF a small_root_loop_premises(1), of small_root "''x''" 0]
    writeFile_then_readFile[OF b empty_root_premises(1), of empty_root "''x''" 0]
    writeFile_then_readFile[OF c bare_directory_premises(1), of bare_directory "''x''" 0]
  show ?thesis
    using a b c small_root_loop_premises empty_root_premises bare_directory_premises by simp
qed

section \<open>Moving a file into a directory that does not exist\<close>

lemma walk_parent_dir:
  assumes "walk_loop root pre (r @ [x]) cur follow d = Some res"
  shows "\<exists>pr m c. walk_loop root pre r cur follow d = Some pr \<and> ntype (snd pr) = Directory \<and>
           children (snd pr) = Some m \<and> m x = Some c \<and>
           walk_loop root (pre @ r) [x] pr follow d = Some res"
proof -
  from assms obtain pr where pr: "walk_loop root pre r cur follow d = Some pr"
    and step: "walk_loop root (pre @ r) [x] pr follow d = Some res"
    by (auto simp: walk_loop_append split: option.splits)
  from step have "ntype (snd pr) = Directory" by (auto split: if_splits)
  moreover from step this obtain m where "children (snd pr) = Some m"
    by (auto split: option.splits)
  moreover from step calculation obtain c where "m x = Some c"
    by (auto split: option.splits)
  ultimately show ?thesis using pr step by blast
qed

lemma abs_path_parts:
  "filter_Boolean (split_on CHR ''/'' (resolvePath p ''/'')) = resolveParts p ''/''"
  unfolding resolvePath_def by (rule parts_of_abs_path[OF clean_resolveParts_root])

lemma resolve_abs_parent:
  "resolve root (CHR ''/'' # join ''/'' (butlast (resolveParts p ''/''))) ''/''
     = walk root (butlast (resolveParts p ''/'')) True 0"
  by (rule resolve_parent_path[OF clean_resolveParts_root])

lemma resolve_needs_parent:
  assumes "resolve root p ''/'' = Some r" "ntype root = Directory"
  shows "isDirectory root (parent_path p) ''/''"
proof (cases "resolveParts p ''/'' = []")
  case True
  then have "parent_path p = ''/''" by (simp add: parent_path_def)
  moreover have "resolveParts ''/'' ''/'' = []"
    by (simp add: resolveParts_def startsWith_def filter_Boolean_def)
  ultimately show ?thesis using assms(2)
    by (simp add: isDirectory_def resolve_def walk_def)
next
  case False
  define ps where "ps = resolveParts p ''/''"
  have sp: "ps = butlast ps @ [last ps]" using False ps_def by simp
  from assms(1) have "walk_loop root [] (butlast ps @ [last ps]) ([], root) True 0 = Some r"
    using sp by (simp add: resolve_def walk_def ps_def)
  from walk_parent_dir[OF this] obtain pr where
    "walk_loop root [] (butlast ps) ([], root) True 0 = Some pr" "ntype (snd pr) = Directory"
    by blast
  moreover have "resolve root (CHR ''/'' # join ''/'' (butlast ps)) ''/'' = walk root (butlast ps) True 0"
    unfolding ps_def by (rule resolve_abs_parent)
  ultimately show ?thesis
    by (cases pr) (simp add: isDirectory_def parent_path_def ps_def[symmetric] walk_def)
qed

lemma writeFile_no_parent:
  assumes "\<not> isDirectory root (parent_path p) ''/''"
  shows "writeFile root p str ''/'' now = Inr (False, root)"
  using assms
  unfolding writeFile_def Let_def abs_path_parts isDirectory_def parent_path_def
  by (auto split: option.splits)

text \<open>
  What \<^verbatim>\<open>mv\<close> does to the tree when the source can be read and the parent of the
  destination is no directory: it deletes the entry that the source names, and nothing else.
  In the tree it leaves, a walk that succeeds is a walk of the old tree.
\<close>

lemma mv_removes_source_entry:
  assumes nargs: "length (args cmd) \<ge> 2"
    and rootdir: "ntype (fs ctx) = Directory"
    and src: "src = ctx_resolvePath ctx (args cmd ! 0)"
    and dest: "dest = ctx_resolvePath ctx (args cmd ! 1)"
    and src_file: "readFile (fs ctx) src ''/'' = Some str"
    and no_parent: "\<not> isDirectory (fs ctx) (parent_path dest) ''/''"
  shows "\<exists>locP P m e f.
           parent_of (fs ctx) src ''/'' = Some (locP, P) \<and> get_at locP (fs ctx) = Some P \<and>
           children P = Some m \<and> m (file_name src ''/'') = Some e \<and> ntype e \<noteq> Directory \<and>
           resolve (fs ctx) src ''/'' = Some f \<and> ntype (snd f) = File \<and>
           (ntype e \<noteq> Symlink \<longrightarrow> snd f = e) \<and>
           handleMv cmd ctx stdin now =
             Inr (\<lparr>outputText = [], exitCode = 0\<rparr>, ctx\<lparr>fs := without_entry (fs ctx) src ''/''\<rparr>) \<and>
           \<not> exists_path (without_entry (fs ctx) src ''/'') src ''/'' \<and>
           \<not> exists_path (without_entry (fs ctx) src ''/'') dest ''/''"
proof -
  define root where "root = fs ctx"
  define ps where "ps = resolveParts src ''/''"
  note rd = rootdir[folded root_def]
  from src_file obtain l f where res_src: "resolve root src ''/'' = Some (l, f)" and f: "ntype f = File"
    by (auto simp: readFile_def root_def split: option.splits if_splits)
  have wsrc: "walk_loop root [] ps ([], root) True 0 = Some (l, f)"
    using res_src by (simp add: resolve_def walk_def ps_def)
  have ne: "ps \<noteq> []"
  proof
    assume "ps = []"
    with wsrc have "f = root" by simp
    with f rd show False by simp
  qed
  define fn where "fn = last ps"
  have fname: "file_name src ''/'' = fn" by (simp add: file_name_def fn_def ps_def)
  have sp: "ps = butlast ps @ [fn]" using ne by (simp add: fn_def)
  from wsrc sp have "walk_loop root [] (butlast ps @ [fn]) ([], root) True 0 = Some (l, f)" by simp
  from walk_parent_dir[OF this] obtain pr m tgt where
    par: "walk_loop root [] (butlast ps) ([], root) True 0 = Some pr" "ntype (snd pr) = Directory"
      "children (snd pr) = Some m" "m fn = Some tgt"
    and step: "walk_loop root ([] @ butlast ps) [fn] pr True 0 = Some (l, f)"
    by blast
  obtain locP P where pr: "pr = (locP, P)" by (cases pr)
  have pof: "parent_of root src ''/'' = Some (locP, P)"
    using par(1) pr by (simp add: parent_of_def walk_def ps_def)
  have tgt_nd: "ntype tgt \<noteq> Directory"
  proof
    assume "ntype tgt = Directory"
    with step par pr have "f = tgt" by (auto split: if_splits)
    with f \<open>ntype tgt = Directory\<close> show False by simp
  qed
  have plain: "f = tgt" if "ntype tgt \<noteq> Symlink"
    using step par pr that by (auto split: if_splits)
  \<comment> \<open>the destination does not resolve, so nothing is written\<close>
  have no_dest: "resolve root dest ''/'' = None"
  proof (rule ccontr)
    assume "resolve root dest ''/'' \<noteq> None"
    then obtain r where "resolve root dest ''/'' = Some r" by auto
    from resolve_needs_parent[OF this rd] no_parent show False
      by (simp add: root_def)
  qed
  then have not_dir: "\<not> isDirectory root dest ''/''" by (simp add: isDirectory_def)
  have wr: "writeFile root dest str ''/'' now = Inr (False, root)"
    using no_parent by (intro writeFile_no_parent) (simp add: root_def)
  \<comment> \<open>the source entry is removed\<close>
  define root2 where "root2 = update_at locP (children_delete fn) root"
  have we: "without_entry root src ''/'' = root2"
    by (simp add: without_entry_def pof fname root2_def)
  have rp: "resolve root (CHR ''/'' # join ''/'' (butlast ps)) ''/'' = walk root (butlast ps) True 0"
    unfolding ps_def by (rule resolve_abs_parent)
  have rmv: "rm root src ''/'' False = Inr (True, root2)"
    using ne par tgt_nd pr
    unfolding rm_def Let_def abs_path_parts ps_def[symmetric] fn_def[symmetric] rp
    by (simp add: walk_def root2_def)
  have mv: "handleMv cmd ctx stdin now = Inr (\<lparr>outputText = [], exitCode = 0\<rparr>, ctx\<lparr>fs := root2\<rparr>)"
    unfolding handleMv_def Let_def src[symmetric] dest[symmetric] root_def[symmetric]
    using nargs src_file[folded root_def] not_dir wr rmv
    by simp
  \<comment> \<open>walks of the new tree are walks of the old one\<close>
  have gP: "get_at locP root = Some P"
    using walk_loop_get_at[OF par(1)] pr by simp
  have mP: "children P = Some m" using par(3) pr by simp
  have gP2: "get_at locP root2 = Some (set_entry fn None P)"
    unfolding root2_def children_delete_eq by (rule get_at_update_at[OF gP])
  have mP2: "children (set_entry fn None P) = Some (m(fn := None))"
    using mP by (simp add: set_entry_def)
  have absent: "(m(fn := None)) fn = None" by simp
  have restored: "update_at locP (set_entry fn (Some tgt)) root2 = root"
    unfolding root2_def children_delete_eq
    by (rule update_at_restore[OF gP]) (rule set_entry_restore[OF mP par(4)])
  have sim: "walk_loop root [] rest ([], root) True 0
               = Some (ref_with_entry locP (set_entry fn (Some tgt)) fn (Some tgt) res)
             \<and> get_at (fst res) root2 = Some (snd res)"
    if "walk_loop root2 [] rest ([], root2) True 0 = Some res" for rest res
  proof -
    have g0: "get_at (fst ([], root2)) root2 = Some (snd ([], root2))" by simp
    from walk_sim[where g = "set_entry fn (Some tgt)" and v = "Some tgt",
        OF ntype_set_entry target_set_entry children_set_entry that g0 gP2 mP2 absent]
    show ?thesis
      by (simp add: ref_with_entry_def with_entry_root restored)
  qed
  have "resolve root2 src ''/'' = None"
  proof (rule ccontr)
    assume "resolve root2 src ''/'' \<noteq> None"
    then obtain r where "walk_loop root2 [] (butlast ps @ [fn]) ([], root2) True 0 = Some r"
      using sp by (auto simp: resolve_def walk_def ps_def)
    from walk_parent_dir[OF this] obtain pr2 m2 c2 where
      p2: "walk_loop root2 [] (butlast ps) ([], root2) True 0 = Some pr2"
        "children (snd pr2) = Some m2" "m2 fn = Some c2"
      by blast
    from sim[OF p2(1)] par(1) pr have "fst pr2 = locP" "get_at (fst pr2) root2 = Some (snd pr2)"
      by (simp_all add: ref_with_entry_def)
    with gP2 have "snd pr2 = set_entry fn None P" by simp
    with mP2 p2(2) have "m2 = m(fn := None)" by simp
    with p2(3) show False by simp
  qed
  moreover have "resolve root2 dest ''/'' = None"
  proof (rule ccontr)
    assume "resolve root2 dest ''/'' \<noteq> None"
    then obtain r where "walk_loop root2 [] (resolveParts dest ''/'') ([], root2) True 0 = Some r"
      by (auto simp: resolve_def walk_def)
    from sim[OF this] no_dest show False by (simp add: resolve_def walk_def)
  qed
  ultimately show ?thesis
    using mv pof gP mP par(4) tgt_nd res_src f plain we fname
    by (auto simp: exists_path_def root_def)
qed

lemma get_at_no_children:
  "get_at loc root = Some n \<Longrightarrow> children n = None \<Longrightarrow> get_at (loc @ [k]) root = None"
  by (induction loc arbitrary: root) (auto split: option.splits)

lemma get_at_without_entry:
  assumes "parent_of root path dir = Some (locP, P)" "get_at locP root = Some P"
  shows "get_at (locP @ [file_name path dir]) (without_entry root path dir) = None"
proof -
  let ?fn = "file_name path dir"
  have g: "get_at locP (without_entry root path dir) = Some (children_delete ?fn P)"
    using assms by (simp add: without_entry_def get_at_update_at)
  show ?thesis
  proof (cases "children P")
    case None
    then have "children (children_delete ?fn P) = None" by (simp add: children_delete_def)
    with g show ?thesis by (rule get_at_no_children)
  next
    case (Some m)
    then have "children (children_delete ?fn P) = Some (m(?fn := None))"
      by (simp add: children_delete_def)
    from get_at_entry[OF g this, of ?fn] show ?thesis by simp
  qed
qed

text \<open>
  C10. In a filesystem whose root is a directory, let the first operand of \<^verbatim>\<open>mv\<close> resolve
  to a file that can be read and let the parent of the second operand not resolve to a
  directory. Then \<^verbatim>\<open>handleMv\<close> returns the empty output with exit code 0 and leaves the
  filesystem with the entry that the source names deleted and nothing else changed. That
  entry existed before and its position is vacant afterwards, neither the source nor the
  destination exists, and the filesystem is not the one before. When the source names a file
  (and not a symlink to one), the entry deleted is the file node whose content was read: the
  write to the destination failed, its result was dropped, and the only node that held the
  content was removed all the same.
\<close>

theorem mv_into_missing_directory:
  assumes nargs: "length (args cmd) \<ge> 2"
    and rootdir: "ntype (fs ctx) = Directory"
    and src_file: "readFile (fs ctx) (ctx_resolvePath ctx (args cmd ! 0)) ''/'' = Some str"
    and no_parent: "\<not> isDirectory (fs ctx) (parent_path (ctx_resolvePath ctx (args cmd ! 1))) ''/''"
  shows "handleMv cmd ctx stdin now =
           Inr (\<lparr>outputText = [], exitCode = 0\<rparr>,
                ctx\<lparr>fs := without_entry (fs ctx) (ctx_resolvePath ctx (args cmd ! 0)) ''/''\<rparr>) \<and>
         without_entry (fs ctx) (ctx_resolvePath ctx (args cmd ! 0)) ''/'' \<noteq> fs ctx \<and>
         \<not> exists_path (without_entry (fs ctx) (ctx_resolvePath ctx (args cmd ! 0)) ''/'')
             (ctx_resolvePath ctx (args cmd ! 0)) ''/'' \<and>
         \<not> exists_path (without_entry (fs ctx) (ctx_resolvePath ctx (args cmd ! 0)) ''/'')
             (ctx_resolvePath ctx (args cmd ! 1)) ''/'' \<and>
         (\<exists>pos e. entry_position (fs ctx) (ctx_resolvePath ctx (args cmd ! 0)) ''/'' = Some pos \<and>
            get_at pos (fs ctx) = Some e \<and>
            get_at pos (without_entry (fs ctx) (ctx_resolvePath ctx (args cmd ! 0)) ''/'') = None \<and>
            (\<not> names_symlink (fs ctx) (ctx_resolvePath ctx (args cmd ! 0)) ''/'' \<longrightarrow>
               ntype e = File \<and> (case content e of Some c \<Rightarrow> c | None \<Rightarrow> []) = str))"
proof -
  define src where "src = ctx_resolvePath ctx (args cmd ! 0)"
  define dest where "dest = ctx_resolvePath ctx (args cmd ! 1)"
  define root where "root = fs ctx"
  from mv_removes_source_entry[OF nargs rootdir src_def dest_def
      src_file[folded src_def] no_parent[folded dest_def], of stdin now]
  obtain locP P m e f where
    pof: "parent_of root src ''/'' = Some (locP, P)" and gP: "get_at locP root = Some P"
    and mP: "children P = Some m" and e: "m (file_name src ''/'') = Some e"
    and res: "resolve root src ''/'' = Some f" "ntype (snd f) = File"
    and plain: "ntype e \<noteq> Symlink \<longrightarrow> snd f = e"
    and mv: "handleMv cmd ctx stdin now =
               Inr (\<lparr>outputText = [], exitCode = 0\<rparr>, ctx\<lparr>fs := without_entry root src ''/''\<rparr>)"
    and gone: "\<not> exists_path (without_entry root src ''/'') src ''/''"
      "\<not> exists_path (without_entry root src ''/'') dest ''/''"
    unfolding root_def by blast
  let ?pos = "locP @ [file_name src ''/'']"
  have pos: "entry_position root src ''/'' = Some ?pos"
    using pof by (simp add: entry_position_def)
  have before: "get_at ?pos root = Some e"
    using get_at_entry[OF gP mP, of "file_name src ''/''"] e by simp
  have after: "get_at ?pos (without_entry root src ''/'') = None"
    by (rule get_at_without_entry[OF pof gP])
  have changed: "without_entry root src ''/'' \<noteq> root"
    using before after by auto
  have ne: "resolveParts src ''/'' \<noteq> []"
  proof
    assume "resolveParts src ''/'' = []"
    with res have "snd f = root" by (auto simp: resolve_def walk_def)
    with res(2) rootdir show False by (simp add: root_def)
  qed
  have ent: "entry_of root src ''/'' = Some e"
    using pof mP e ne by (simp add: entry_of_def)
  have str: "(case content (snd f) of Some c \<Rightarrow> c | None \<Rightarrow> []) = str"
    using src_file res by (cases f) (simp add: readFile_def src_def root_def)
  have lost: "ntype e = File \<and> (case content e of Some c \<Rightarrow> c | None \<Rightarrow> []) = str"
    if "\<not> names_symlink root src ''/''"
  proof -
    from that ent have "ntype e \<noteq> Symlink" by (simp add: names_symlink_def)
    with plain have "snd f = e" by simp
    with res(2) str show ?thesis by simp
  qed
  show ?thesis
    using mv changed gone pos before after lost
    unfolding src_def[symmetric] dest_def[symmetric] root_def[symmetric]
    by blast
qed

lemma mv_cmd_paths:
  "ctx_resolvePath (new_context small_root) (args mv_cmd ! 0) = ''/a''"
  "ctx_resolvePath (new_context small_root) (args mv_cmd ! 1) = ''/nodir/b''"
  by (simp_all add: mv_cmd_def new_context_def ctx_resolvePath_def resolvePath_def resolveParts_def
      startsWith_def filter_Boolean_def)

lemma mv_cmd_premises:
  "length (args mv_cmd) \<ge> 2"
  "ntype (fs (new_context small_root)) = Directory"
  "readFile (fs (new_context small_root)) ''/a'' ''/'' = Some ''hi''"
  "\<not> isDirectory (fs (new_context small_root)) (parent_path ''/nodir/b'') ''/''"
  "\<not> names_symlink (fs (new_context small_root)) ''/a'' ''/''"
  by (simp_all add: mv_cmd_def new_context_def small_root_def file_a_def readFile_def
      isDirectory_def parent_path_def resolve_def walk_def resolveParts_def startsWith_def
      filter_Boolean_def names_symlink_def entry_of_def parent_of_def file_name_def)

theorem mv_into_missing_directory_witness:
  "length (args mv_cmd) \<ge> 2 \<and>
   ntype (fs (new_context small_root)) = Directory \<and>
   readFile (fs (new_context small_root)) ''/a'' ''/'' = Some ''hi'' \<and>
   \<not> isDirectory (fs (new_context small_root)) (parent_path ''/nodir/b'') ''/'' \<and>
   \<not> names_symlink (fs (new_context small_root)) ''/a'' ''/'' \<and>
   handleMv mv_cmd (new_context small_root) None 0 =
     Inr (\<lparr>outputText = [], exitCode = 0\<rparr>,
          (new_context small_root)\<lparr>fs := without_entry (fs (new_context small_root)) ''/a'' ''/''\<rparr>) \<and>
   \<not> exists_path (without_entry (fs (new_context small_root)) ''/a'' ''/'') ''/a'' ''/'' \<and>
   \<not> exists_path (without_entry (fs (new_context small_root)) ''/a'' ''/'') ''/nodir/b'' ''/'' \<and>
   (\<exists>pos e. entry_position (fs (new_context small_root)) ''/a'' ''/'' = Some pos \<and>
      get_at pos (fs (new_context small_root)) = Some e \<and>
      get_at pos (without_entry (fs (new_context small_root)) ''/a'' ''/'') = None \<and>
      ntype e = File \<and> (case content e of Some c \<Rightarrow> c | None \<Rightarrow> []) = ''hi'')"
  using mv_into_missing_directory[of mv_cmd "new_context small_root" "''hi''" None 0]
    mv_cmd_premises
  by (simp only: mv_cmd_paths simp_thms)

text \<open>
  When the source names a symlink to a file, it is the link that is deleted; the file it
  points to keeps its content.
\<close>

lemma mv_link_keeps_target:
  "\<exists>ctx'. handleMv mv_link_cmd (new_context linked_root) None 0
            = Inr (\<lparr>outputText = [], exitCode = 0\<rparr>, ctx') \<and>
          \<not> exists_path (fs ctx') ''/l'' ''/'' \<and>
          readFile (fs ctx') ''/a'' ''/'' = Some ''hi''"
  by (simp add: handleMv_def mv_link_cmd_def new_context_def ctx_resolvePath_def resolvePath_def
      resolveParts_def startsWith_def filter_Boolean_def readFile_def isDirectory_def
      exists_path_def resolve_def walk_def writeFile_def rm_def children_get_def
      children_delete_def set_children_def linked_root_def file_a_def link_l_def truthy_def)

end
